theory Spec2Isabelle
  imports Complex_Main "HOL-Library.While_Combinator" "HOL-Library.Signed_Division"
begin

section \<open>Vectors and auxiliary value classes\<close>

text \<open>
  The source instantiates every template with \<open>numType = int\<close>
  (\<open>Hex_Board : undirected_Graph<int>\<close>, \<open>ShortestPath<Hex_Board, int>\<close>), so costs
  are integers.  Node indices, tags and costs are C++ \<open>int\<close>s; they are modelled as
  unbounded integers (every value the functions compute is bounded by the number of
  nodes, so 32-bit wrap-around never occurs on a board that fits in memory).

  A \<open>std::vector\<close> is a list.  Reading or writing \<open>v[i]\<close> outside the vector is
  undefined behaviour in C++; \<open>vec_at\<close> and \<open>vec_put\<close> leave the result unspecified
  there, so nothing can be proved about a run that leaves the vector.
\<close>

definition vec_at :: "'a list \<Rightarrow> int \<Rightarrow> 'a" where
  "vec_at v i = (if 0 \<le> i \<and> i < int (length v) then v ! nat i else undefined)"

definition vec_put :: "'a list \<Rightarrow> int \<Rightarrow> 'a \<Rightarrow> 'a list" where
  "vec_put v i x = (if 0 \<le> i \<and> i < int (length v) then v[nat i := x] else undefined)"

text \<open>The index range of \<open>for(int i=0; i<n; ++i)\<close>.\<close>

definition indices :: "int \<Rightarrow> int list" where
  "indices n = [0..n - 1]"

text \<open>
  \<open>bool_and_num_Pair\<close>, \<open>int_and_num_Pair\<close> and \<open>int_int_and_num_Triad\<close> are plain
  tuples; the getters keep the source's names (\<open>get_value2\<close> and \<open>get_value3\<close> of a triad
  are \<open>triad_value2\<close> and \<open>triad_value3\<close>).
\<close>

type_synonym bool_and_num_Pair = "bool \<times> int"
type_synonym int_and_num_Pair = "int \<times> int"
type_synonym int_int_and_num_Triad = "int \<times> int \<times> int"

abbreviation get_bool :: "bool_and_num_Pair \<Rightarrow> bool" where
  "get_bool p \<equiv> fst p"

abbreviation get_value :: "bool_and_num_Pair \<Rightarrow> int" where
  "get_value p \<equiv> snd p"

abbreviation get_value1 :: "int \<times> 'a \<Rightarrow> int" where
  "get_value1 p \<equiv> fst p"

abbreviation get_value2 :: "int_and_num_Pair \<Rightarrow> int" where
  "get_value2 p \<equiv> snd p"

abbreviation triad_value2 :: "int_int_and_num_Triad \<Rightarrow> int" where
  "triad_value2 t \<equiv> fst (snd t)"

abbreviation triad_value3 :: "int_int_and_num_Triad \<Rightarrow> int" where
  "triad_value3 t \<equiv> snd (snd t)"

section \<open>class Graph\<close>

datatype representationMode = CON_MATRIX | EDGE_LIST

text \<open>
  The member \<open>size\<close> is the field \<open>gsize\<close>.  The \<open>float\<close> member \<open>density\<close> of
  \<open>undirected_Graph\<close> is left out: it is constant, \<open>Hex_Board\<close> sets it to 0 and no
  function below reads it.
\<close>

record Graph =
  gsize :: int
  connectivityMatrix :: "bool_and_num_Pair list list"
  edgeList :: "int_and_num_Pair list list"
  preferredRepresentation :: representationMode
  nodeValues :: "int list"
  nodeTags :: "int list"
  conMatrix_was_computed :: bool
  edgeList_was_computed :: bool

definition V :: "'a Graph_scheme \<Rightarrow> int" where
  "V g = gsize g"

text \<open>
  \<open>generate_conMatrix_from_edgeList\<close>: the matrix is cleared, filled with
  \<open>(false, 0)\<close>, then every entry \<open>(auxIndex, costAux)\<close> of row \<open>i\<close> of the edge list is
  written to \<open>connectivityMatrix[i][auxIndex]\<close>, in list order.
\<close>

definition blank_matrix :: "int \<Rightarrow> bool_and_num_Pair list list" where
  "blank_matrix n = map (\<lambda>i. map (\<lambda>j. (False, 0)) (indices n)) (indices n)"

definition set_entry :: "bool_and_num_Pair list list \<Rightarrow> int \<Rightarrow> int \<Rightarrow> bool_and_num_Pair \<Rightarrow> bool_and_num_Pair list list" where
  "set_entry M i j p = vec_put M i (vec_put (vec_at M i) j p)"

definition generate_conMatrix_from_edgeList :: "'a Graph_scheme \<Rightarrow> 'a Graph_scheme" where
  "generate_conMatrix_from_edgeList g =
     (if edgeList_was_computed g = True then
        g\<lparr>connectivityMatrix :=
             foldl (\<lambda>M i. foldl (\<lambda>M e. set_entry M i (get_value1 e) (True, get_value2 e))
                              M (vec_at (edgeList g) i))
                   (blank_matrix (gsize g)) (indices (gsize g)),
          conMatrix_was_computed := True\<rparr>
      else g)"

text \<open>
  \<open>generate_edgeList_from_conMatrix\<close>: row \<open>i\<close> of the new edge list holds
  \<open>(j, cost)\<close> for every \<open>j\<close> with \<open>connectivityMatrix[i][j].get_bool()\<close>, in increasing \<open>j\<close>.
\<close>

definition matrix_row_edges :: "bool_and_num_Pair list list \<Rightarrow> int \<Rightarrow> int \<Rightarrow> int_and_num_Pair list" where
  "matrix_row_edges M n i =
     map (\<lambda>j. (j, get_value (vec_at (vec_at M i) j)))
         (filter (\<lambda>j. get_bool (vec_at (vec_at M i) j) = True) (indices n))"

definition generate_edgeList_from_conMatrix :: "'a Graph_scheme \<Rightarrow> 'a Graph_scheme" where
  "generate_edgeList_from_conMatrix g =
     (if conMatrix_was_computed g = True then
        g\<lparr>edgeList := map (matrix_row_edges (connectivityMatrix g) (gsize g)) (indices (gsize g)),
          edgeList_was_computed := True\<rparr>
      else g)"

definition adjacent :: "'a Graph_scheme \<Rightarrow> int \<Rightarrow> int \<Rightarrow> bool" where
  "adjacent g nodeFrom nodeTo =
     (if edgeList_was_computed g = True then
        list_ex (\<lambda>e. get_value1 e = nodeTo) (vec_at (edgeList g) nodeFrom)
      else if conMatrix_was_computed g = True then
        (if get_bool (vec_at (vec_at (connectivityMatrix g) nodeFrom) nodeTo) = True then True else False)
      else False)"

definition neighbors :: "'a Graph_scheme \<Rightarrow> int \<Rightarrow> int_and_num_Pair list" where
  "neighbors g nodeFrom =
     (if edgeList_was_computed g = True then vec_at (edgeList g) nodeFrom
      else if conMatrix_was_computed g = True then
        matrix_row_edges (connectivityMatrix g) (gsize g) nodeFrom
      else [])"

definition get_node_value :: "'a Graph_scheme \<Rightarrow> int \<Rightarrow> int" where
  "get_node_value g i = vec_at (nodeValues g) i"

definition get_node_tag :: "'a Graph_scheme \<Rightarrow> int \<Rightarrow> int" where
  "get_node_tag g i = vec_at (nodeTags g) i"

definition set_node_value :: "'a Graph_scheme \<Rightarrow> int \<Rightarrow> int \<Rightarrow> 'a Graph_scheme" where
  "set_node_value g node val =
     (let vals = (if length (nodeValues g) = 0 then map (\<lambda>i. 0) (indices (gsize g)) else nodeValues g)
      in g\<lparr>nodeValues := vec_put vals node val\<rparr>)"

definition set_node_tag :: "'a Graph_scheme \<Rightarrow> int \<Rightarrow> int \<Rightarrow> 'a Graph_scheme" where
  "set_node_tag g node val =
     (let tags = (if length (nodeTags g) = 0 then map (\<lambda>i. 0) (indices (gsize g)) else nodeTags g)
      in g\<lparr>nodeTags := vec_put tags node val\<rparr>)"

text \<open>
  \<open>get_edge_value\<close> returns \<open>numType\<close>.  When the edge is missing it returns
  \<open>costVal\<close>, still 0 (edge-list branch), or the literal 0 (matrix branch, and when
  neither representation exists).  The scan returns at the first matching entry.  The
  lines written to \<open>cout\<close> are not part of the model.
\<close>

fun edge_scan :: "int_and_num_Pair list \<Rightarrow> int \<Rightarrow> int \<Rightarrow> int" where
  "edge_scan [] nodeTo costVal = costVal"
| "edge_scan (e # es) nodeTo costVal =
     (if get_value1 e = nodeTo then get_value2 e else edge_scan es nodeTo costVal)"

definition get_edge_value :: "'a Graph_scheme \<Rightarrow> int \<Rightarrow> int \<Rightarrow> int" where
  "get_edge_value g nodeFrom nodeTo =
     (if edgeList_was_computed g = True then edge_scan (vec_at (edgeList g) nodeFrom) nodeTo 0
      else if conMatrix_was_computed g = True then
        (if get_bool (vec_at (vec_at (connectivityMatrix g) nodeFrom) nodeTo) = True
         then get_value (vec_at (vec_at (connectivityMatrix g) nodeFrom) nodeTo)
         else 0)
      else 0)"

section \<open>class undirected_Graph: the edge mutators\<close>

text \<open>
  \<open>addEdge\<close> looks for \<open>nodeTo\<close> in the row of \<open>nodeFrom\<close>; when it is not there it
  pushes \<open>(nodeTo, cost)\<close> to the row of \<open>nodeFrom\<close> and then \<open>(nodeFrom, cost)\<close> to the
  row of \<open>nodeTo\<close>.  In the matrix it writes both entries when the entry
  \<open>[nodeFrom][nodeTo]\<close> is not set.
\<close>

definition push_edge :: "int_and_num_Pair list list \<Rightarrow> int \<Rightarrow> int_and_num_Pair \<Rightarrow> int_and_num_Pair list list" where
  "push_edge el i e = vec_put el i (vec_at el i @ [e])"

definition addEdge :: "'a Graph_scheme \<Rightarrow> int \<Rightarrow> int \<Rightarrow> int \<Rightarrow> 'a Graph_scheme" where
  "addEdge g nodeFrom nodeTo cost =
     (let g1 = (if edgeList_was_computed g = True then
                  (if list_ex (\<lambda>e. get_value1 e = nodeTo) (vec_at (edgeList g) nodeFrom) then g
                   else g\<lparr>edgeList := push_edge (push_edge (edgeList g) nodeFrom (nodeTo, cost))
                                                 nodeTo (nodeFrom, cost)\<rparr>)
                else g)
      in if conMatrix_was_computed g1 = True then
           (if get_bool (vec_at (vec_at (connectivityMatrix g1) nodeFrom) nodeTo) = False then
              g1\<lparr>connectivityMatrix :=
                   set_entry (set_entry (connectivityMatrix g1) nodeFrom nodeTo (True, cost))
                             nodeTo nodeFrom (True, cost)\<rparr>
            else g1)
         else g1)"

text \<open>
  \<open>force_set_edge_value\<close> writes the new cost into the first entry for \<open>nodeTo\<close> in the
  row of \<open>nodeFrom\<close>, then into the first entry for \<open>nodeFrom\<close> in the row of \<open>nodeTo\<close>,
  and leaves both loops; when the row of \<open>nodeFrom\<close> has no such entry it pushes as
  \<open>addEdge\<close> does.  In the matrix it writes both entries.
\<close>

fun set_first_cost :: "int_and_num_Pair list \<Rightarrow> int \<Rightarrow> int \<Rightarrow> int_and_num_Pair list" where
  "set_first_cost [] node val = []"
| "set_first_cost (e # es) node val =
     (if get_value1 e = node then (get_value1 e, val) # es else e # set_first_cost es node val)"

definition force_set_edge_value :: "'a Graph_scheme \<Rightarrow> int \<Rightarrow> int \<Rightarrow> int \<Rightarrow> 'a Graph_scheme" where
  "force_set_edge_value g nodeFrom nodeTo val =
     (let g1 = (if edgeList_was_computed g = True then
                  (if list_ex (\<lambda>e. get_value1 e = nodeTo) (vec_at (edgeList g) nodeFrom) then
                     (let el1 = vec_put (edgeList g) nodeFrom
                                  (set_first_cost (vec_at (edgeList g) nodeFrom) nodeTo val);
                          el2 = vec_put el1 nodeTo (set_first_cost (vec_at el1 nodeTo) nodeFrom val)
                      in g\<lparr>edgeList := el2\<rparr>)
                   else g\<lparr>edgeList := push_edge (push_edge (edgeList g) nodeFrom (nodeTo, val))
                                                 nodeTo (nodeFrom, val)\<rparr>)
                else g)
      in if conMatrix_was_computed g1 = True then
           g1\<lparr>connectivityMatrix :=
                set_entry (set_entry (connectivityMatrix g1) nodeFrom nodeTo (True, val))
                          nodeTo nodeFrom (True, val)\<rparr>
         else g1)"

section \<open>class Hex_Board\<close>

record Hex_Board = Graph +
  border_length :: int

definition coordinate_to_nodeIndex :: "Hex_Board \<Rightarrow> int \<Rightarrow> int \<Rightarrow> int" where
  "coordinate_to_nodeIndex b x y =
     (if x < 0 \<or> x > border_length b - 1 \<or> y < 0 \<or> y > border_length b - 1 then - 999
      else x * border_length b + y)"

text \<open>C++ \<open>/\<close> and \<open>%\<close> on \<open>int\<close> truncate towards zero: \<open>sdiv\<close> and \<open>smod\<close>.\<close>

definition nodeIndex_to_coordinate :: "Hex_Board \<Rightarrow> int \<Rightarrow> int \<times> int" where
  "nodeIndex_to_coordinate b index =
     (if index < 0 \<or> index > gsize b - 1 then (- 999, - 999)
      else (index sdiv border_length b, index smod border_length b))"

text \<open>
  The nine cell classes of \<open>Hex_Board::generate_graph_matrixMode\<close>, in the source's
  order; each yields the values \<open>temp_nodeFrom\<close> takes, in order.  For every one of
  them the source executes \<open>connectivityMatrix[temp_nodeFrom][node].set_pair(true, cost)\<close>
  with \<open>cost = 1\<close>.
\<close>

definition hex_connect_from :: "int \<Rightarrow> int \<Rightarrow> int \<Rightarrow> int list" where
  "hex_connect_from L x y =
     (if x = 0 \<and> y = 0 then [x * L + y + 1, (x + 1) * L + y]
      else if x = L - 1 \<and> y = L - 1 then [(x - 1) * L + y, x * L + y - 1]
      else if x = L - 1 \<and> y = 0 then [(x - 1) * L + y, (x - 1) * L + y + 1, x * L + y + 1]
      else if x = 0 \<and> y = L - 1 then [x * L + y - 1, (x + 1) * L + y - 1, (x + 1) * L + y]
      else if x = 0 then [x * L + y - 1, x * L + y + 1, (x + 1) * L + y - 1, (x + 1) * L + y]
      else if x = L - 1 then [(x - 1) * L + y, (x - 1) * L + y + 1, x * L + y - 1, x * L + y + 1]
      else if y = 0 then [(x - 1) * L + y, (x - 1) * L + y + 1, x * L + y + 1, (x + 1) * L + y]
      else if y = L - 1 then [(x - 1) * L + y, x * L + y - 1, (x + 1) * L + y - 1, (x + 1) * L + y]
      else [(x - 1) * L + y, (x - 1) * L + y + 1, x * L + y - 1, x * L + y + 1,
            (x + 1) * L + y - 1, (x + 1) * L + y])"

definition connect_node :: "Hex_Board \<Rightarrow> bool_and_num_Pair list list \<Rightarrow> int \<Rightarrow> bool_and_num_Pair list list" where
  "connect_node b M node =
     (let node_coords = nodeIndex_to_coordinate b node;
          x = fst node_coords;
          y = snd node_coords;
          cost = 1
      in foldl (\<lambda>M temp_nodeFrom. set_entry M temp_nodeFrom node (True, cost))
               M (hex_connect_from (border_length b) x y))"

text \<open>
  The matrix is empty whenever \<open>conMatrix_was_computed\<close> is false (only the two
  generators fill it, and both set the flag), so the \<open>push_back\<close> loops build the
  blank matrix.
\<close>

definition generate_graph_matrixMode :: "Hex_Board \<Rightarrow> Hex_Board" where
  "generate_graph_matrixMode b =
     (if conMatrix_was_computed b = True then b
      else b\<lparr>connectivityMatrix := foldl (connect_node b) (blank_matrix (gsize b)) (indices (gsize b)),
             conMatrix_was_computed := True\<rparr>)"

definition generate_graph_edgeListMode :: "Hex_Board \<Rightarrow> Hex_Board" where
  "generate_graph_edgeListMode b =
     (generate_edgeList_from_conMatrix (generate_graph_matrixMode b))\<lparr>edgeList_was_computed := True\<rparr>"

definition generate_blank_connected_board :: "Hex_Board \<Rightarrow> Hex_Board" where
  "generate_blank_connected_board b =
     (if preferredRepresentation b = CON_MATRIX then generate_graph_matrixMode b
      else generate_graph_edgeListMode b)"

text \<open>
  The constructor \<open>Hex_Board(int border_length, representationMode repr_mode)\<close>: the
  \<open>Graph\<close> constructor sets the size and clears both flags, the \<open>undirected_Graph\<close>
  constructor pushes \<open>size\<close> zero values and zero tags, then the board is generated.
\<close>

definition new_Hex_Board :: "int \<Rightarrow> representationMode \<Rightarrow> Hex_Board" where
  "new_Hex_Board L repr_mode =
     generate_blank_connected_board
       \<lparr>gsize = L * L, connectivityMatrix = [], edgeList = [],
        preferredRepresentation = repr_mode,
        nodeValues = map (\<lambda>i. 0) (indices (L * L)),
        nodeTags = map (\<lambda>i. 0) (indices (L * L)),
        conMatrix_was_computed = False, edgeList_was_computed = False,
        border_length = L\<rparr>"

section \<open>class PriorityQueue\<close>

text \<open>The queue is the vector \<open>queue\<close> of triads \<open>(from, to, cumulative cost)\<close>.\<close>

text \<open>
  \<open>insert\<close>: an empty queue takes the element; otherwise the element goes in front of
  the first entry whose cost is \<open>>=\<close> the new cost, or at the back when there is none.
\<close>

fun insert_scan :: "int_int_and_num_Triad list \<Rightarrow> int_int_and_num_Triad \<Rightarrow> int_int_and_num_Triad list" where
  "insert_scan [] new_element = [new_element]"
| "insert_scan (e # q) new_element =
     (if triad_value3 e \<ge> triad_value3 new_element then new_element # e # q
      else e # insert_scan q new_element)"

definition pq_insert :: "int_int_and_num_Triad list \<Rightarrow> int_int_and_num_Triad \<Rightarrow> int_int_and_num_Triad list" where
  "pq_insert queue new_element =
     (if length queue = 0 then queue @ [new_element] else insert_scan queue new_element)"

definition contains_elem_with_val1_val2 :: "int_int_and_num_Triad list \<Rightarrow> int \<Rightarrow> int \<Rightarrow> bool" where
  "contains_elem_with_val1_val2 queue val1 val2 =
     list_ex (\<lambda>e. get_value1 e = val1 \<and> triad_value2 e = val2) queue"

definition improves_cost_of_node :: "int_int_and_num_Triad list \<Rightarrow> int_int_and_num_Triad \<Rightarrow> bool" where
  "improves_cost_of_node queue new_element =
     (\<not> list_ex (\<lambda>e. triad_value2 e = triad_value2 new_element
                       \<and> triad_value3 e \<le> triad_value3 new_element) queue)"

text \<open>
  \<open>update_queue_with_shorter_path\<close>: the inner loop erases the first entry whose
  second value is the new destination and breaks; the outer loop repeats it while
  its counter \<open>i\<close> is below the current \<open>queue.size()\<close>, which shrinks with every
  erasure.  Then the new element is inserted.
\<close>

fun erase_first_val2 :: "int_int_and_num_Triad list \<Rightarrow> int \<Rightarrow> int_int_and_num_Triad list" where
  "erase_first_val2 [] v = []"
| "erase_first_val2 (e # q) v = (if triad_value2 e = v then q else e # erase_first_val2 q v)"

function erase_passes :: "nat \<Rightarrow> int_int_and_num_Triad list \<Rightarrow> int \<Rightarrow> int_int_and_num_Triad list" where
  "erase_passes i q v = (if i < length q then erase_passes (Suc i) (erase_first_val2 q v) v else q)"
  by pat_completeness auto
termination
proof (relation "measure (\<lambda>(i, q, v). length q - i)")
  show "wf (measure (\<lambda>(i, q, v). length q - i))" by simp
next
  fix i :: nat and q :: "int_int_and_num_Triad list" and v :: int
  assume "i < length q"
  moreover have "length (erase_first_val2 q v) \<le> length q" by (induction q) auto
  ultimately show "((Suc i, erase_first_val2 q v, v), (i, q, v)) \<in> measure (\<lambda>(i, q, v). length q - i)"
    by simp
qed

declare erase_passes.simps [simp del]

definition update_queue_with_shorter_path :: "int_int_and_num_Triad list \<Rightarrow> int_int_and_num_Triad \<Rightarrow> int_int_and_num_Triad list" where
  "update_queue_with_shorter_path queue new_element =
     pq_insert (erase_passes 0 queue (triad_value2 new_element)) new_element"

text \<open>
  \<open>theres_any_in_queue_not_in_ref\<close>: \<open>condition\<close> starts true and the scan stops with
  false at the first queue entry that occurs in \<open>ref_queue\<close>.
\<close>

fun ref_scan :: "int_int_and_num_Triad list \<Rightarrow> int_int_and_num_Triad list \<Rightarrow> bool" where
  "ref_scan [] ref_queue = True"
| "ref_scan (e # q) ref_queue = (if list_ex (\<lambda>r. r = e) ref_queue then False else ref_scan q ref_queue)"

definition theres_any_in_queue_not_in_ref :: "int_int_and_num_Triad list \<Rightarrow> int_int_and_num_Triad list \<Rightarrow> bool" where
  "theres_any_in_queue_not_in_ref queue ref_queue =
     (if length queue > 0 \<and> length ref_queue = 0 then True else ref_scan queue ref_queue)"

text \<open>
  \<open>get_first_in_queue_not_in_ref_NotDelete\<close> and
  \<open>getAndDelete_first_in_queue_not_in_ref\<close>: the flag \<open>aux\<close> is set when an entry is
  found in \<open>ref_queue\<close> and is never cleared; the first entry reached with \<open>aux\<close> still
  false is returned (and erased by the second function); otherwise the triad
  \<open>(-1, -1, -1)\<close>.
\<close>

fun first_scan :: "bool \<Rightarrow> int_int_and_num_Triad list \<Rightarrow> int_int_and_num_Triad list \<Rightarrow> int_int_and_num_Triad" where
  "first_scan aux [] ref_queue = (- 1, - 1, - 1)"
| "first_scan aux (e # q) ref_queue =
     (let aux' = (aux \<or> list_ex (\<lambda>r. r = e) ref_queue)
      in if aux' = False then e else first_scan aux' q ref_queue)"

definition get_first_in_queue_not_in_ref_NotDelete :: "int_int_and_num_Triad list \<Rightarrow> int_int_and_num_Triad list \<Rightarrow> int_int_and_num_Triad" where
  "get_first_in_queue_not_in_ref_NotDelete queue ref_queue =
     (if length queue > 0 \<and> length ref_queue = 0 then vec_at queue 0
      else first_scan False queue ref_queue)"

fun first_scan_delete :: "bool \<Rightarrow> int_int_and_num_Triad list \<Rightarrow> int_int_and_num_Triad list \<Rightarrow> int_int_and_num_Triad list
    \<Rightarrow> int_int_and_num_Triad \<times> int_int_and_num_Triad list" where
  "first_scan_delete aux seen [] ref_queue = ((- 1, - 1, - 1), seen)"
| "first_scan_delete aux seen (e # q) ref_queue =
     (let aux' = (aux \<or> list_ex (\<lambda>r. r = e) ref_queue)
      in if aux' = False then (e, seen @ q) else first_scan_delete aux' (seen @ [e]) q ref_queue)"

definition getAndDelete_first_in_queue_not_in_ref :: "int_int_and_num_Triad list \<Rightarrow> int_int_and_num_Triad list
    \<Rightarrow> int_int_and_num_Triad \<times> int_int_and_num_Triad list" where
  "getAndDelete_first_in_queue_not_in_ref queue ref_queue =
     (if length queue > 0 \<and> length ref_queue = 0 then (vec_at queue 0, tl queue)
      else first_scan_delete False [] queue ref_queue)"

definition get_top_NotDelete :: "int_int_and_num_Triad list \<Rightarrow> int_int_and_num_Triad" where
  "get_top_NotDelete queue = vec_at queue 0"

section \<open>class ShortestPath\<close>

text \<open>
  \<open>ShortestPath<Hex_Board, int>\<close>.  The member \<open>graph\<close> is a reference to the board
  the object was built on; the field \<open>graph\<close> holds the board as the object sees it,
  and whatever a member function did to it would show in that field.  The vector member
  \<open>neighbors\<close> is the field \<open>sp_neighbors\<close>.
\<close>

record ShortestPath =
  nodeFrom :: int
  nodeTo :: int
  currentNode :: int
  graph :: Hex_Board
  terminated :: bool
  path_was_seeked :: bool
  path_exists :: bool
  nodeTo_was_visited :: bool
  open_set :: "int list"
  closed_set :: "int list"
  tentative_costs :: "int list"
  sp_neighbors :: "int_and_num_Pair list"
  queue :: "int_int_and_num_Triad list"
  last_top_of_queue :: int_int_and_num_Triad
  used_queue_elements :: "int_int_and_num_Triad list"
  shortest_path :: "int_and_num_Pair list"
  shortest_path_cost :: int
  raw_shortest_path :: "int_int_and_num_Triad list"

text \<open>
  \<open>numeric_limits<int>::infinity()\<close> is 0, so the constructor's and \<open>seek_path\<close>'s
  "infinite" cost is \<open>numeric_limits<int>::max()\<close>.
\<close>

definition int_max :: int where
  "int_max = 2147483647"

text \<open>
  The constructor.  It leaves \<open>currentNode\<close> uninitialised; \<open>seek_path\<close> assigns it
  before any read, and the model starts it at 0.
\<close>

definition new_ShortestPath :: "Hex_Board \<Rightarrow> ShortestPath" where
  "new_ShortestPath g =
     \<lparr>nodeFrom = 0, nodeTo = 0, currentNode = 0, graph = g, terminated = False,
      path_was_seeked = False, path_exists = False, nodeTo_was_visited = False,
      open_set = [], closed_set = [], tentative_costs = [], sp_neighbors = [],
      queue = [], last_top_of_queue = (0, 0, 0), used_queue_elements = [],
      shortest_path = [], shortest_path_cost = int_max, raw_shortest_path = []\<rparr>"

definition i_is_in_vector :: "int \<Rightarrow> int list \<Rightarrow> bool" where
  "i_is_in_vector i v = list_ex (\<lambda>k. k = i) v"

definition join_current_and_neighbor_and_cost :: "int \<Rightarrow> int_and_num_Pair \<Rightarrow> int_int_and_num_Triad" where
  "join_current_and_neighbor_and_cost cur neighbor = (cur, get_value1 neighbor, get_value2 neighbor)"

text \<open>The block run when \<open>path_was_seeked\<close> is true on entry.\<close>

definition clear_previous :: "ShortestPath \<Rightarrow> ShortestPath" where
  "clear_previous sp =
     sp\<lparr>open_set := [], closed_set := [], tentative_costs := [], sp_neighbors := [],
        used_queue_elements := [], shortest_path := [], raw_shortest_path := [],
        path_was_seeked := False, terminated := False, path_exists := False,
        nodeTo_was_visited := False, queue := [], last_top_of_queue := (0, 0, 0),
        shortest_path_cost := 0\<rparr>"

text \<open>\<open>banned_nodes\<close>: the nodes whose tag is one of the tags to avoid, in index order.\<close>

definition mark_banned :: "Hex_Board \<Rightarrow> int list \<Rightarrow> int list" where
  "mark_banned g avoid_nodes_with_these_tags =
     filter (\<lambda>i. list_ex (\<lambda>banned_tag. get_node_tag g i = banned_tag) avoid_nodes_with_these_tags)
            (indices (V g))"

text \<open>
  One pass of the inner \<open>for\<close> loop over \<open>neighbors\<close>: a neighbour that is in the open
  set and not banned is offered to the queue with its cost raised by the current
  node's cost.
\<close>

definition relax_neighbor :: "int list \<Rightarrow> ShortestPath \<Rightarrow> int_and_num_Pair \<Rightarrow> ShortestPath" where
  "relax_neighbor banned_nodes sp nb =
     (if get_value1 nb \<in> set (open_set sp) \<and> \<not> i_is_in_vector (get_value1 nb) banned_nodes then
        (let temp = (get_value1 nb, get_value2 nb + vec_at (tentative_costs sp) (currentNode sp));
             triad = join_current_and_neighbor_and_cost (currentNode sp) temp
         in if contains_elem_with_val1_val2 (queue sp) (get_value1 triad) (triad_value2 triad) = False
               \<and> improves_cost_of_node (queue sp) triad
            then sp\<lparr>queue := update_queue_with_shorter_path (queue sp) triad\<rparr>
            else sp)
      else sp)"

text \<open>
  Moving \<open>currentNode\<close> from the open to the closed set: the first occurrence is
  erased and the node is pushed to \<open>closed_set\<close>; nothing happens when it is not open.
\<close>

definition close_current :: "ShortestPath \<Rightarrow> ShortestPath" where
  "close_current sp =
     (if currentNode sp \<in> set (open_set sp)
      then sp\<lparr>open_set := remove1 (currentNode sp) (open_set sp),
              closed_set := closed_set sp @ [currentNode sp]\<rparr>
      else sp)"

text \<open>The body of \<open>while(terminated == false)\<close>.\<close>

definition seek_iteration :: "int list \<Rightarrow> ShortestPath \<Rightarrow> ShortestPath" where
  "seek_iteration banned_nodes sp0 =
     (let sp1 = sp0\<lparr>sp_neighbors := neighbors (graph sp0) (currentNode sp0)\<rparr>;
          sp2 = foldl (relax_neighbor banned_nodes) sp1 (sp_neighbors sp1)
      in if length (queue sp2) > 0 \<and> theres_any_in_queue_not_in_ref (queue sp2) (used_queue_elements sp2) then
           (let aux_top_of_queue = get_first_in_queue_not_in_ref_NotDelete (queue sp2) (used_queue_elements sp2)
            in if triad_value2 aux_top_of_queue \<noteq> nodeTo sp2 then
                 (let popped = getAndDelete_first_in_queue_not_in_ref (queue sp2) (used_queue_elements sp2);
                      another_aux_element = fst popped;
                      sp3 = sp2\<lparr>queue := snd popped,
                                used_queue_elements := used_queue_elements sp2 @ [another_aux_element],
                                last_top_of_queue := another_aux_element,
                                currentNode := triad_value2 another_aux_element\<rparr>;
                      sp4 = close_current sp3
                  in sp4\<lparr>tentative_costs :=
                           vec_put (tentative_costs sp4) (currentNode sp4) (triad_value3 (last_top_of_queue sp4))\<rparr>)
               else
                 (let another_aux_element = get_first_in_queue_not_in_ref_NotDelete (queue sp2) (used_queue_elements sp2);
                      sp3 = sp2\<lparr>nodeTo_was_visited := True,
                                used_queue_elements := used_queue_elements sp2 @ [another_aux_element],
                                last_top_of_queue := another_aux_element\<rparr>;
                      sp4 = sp3\<lparr>tentative_costs :=
                                 vec_put (tentative_costs sp3) (currentNode sp3) (triad_value3 (last_top_of_queue sp3))\<rparr>
                  in if length (queue sp4) > 0 \<and> theres_any_in_queue_not_in_ref (queue sp4) (used_queue_elements sp4)
                     then sp4\<lparr>currentNode :=
                                get_value1 (get_first_in_queue_not_in_ref_NotDelete (queue sp4) (used_queue_elements sp4))\<rparr>
                     else sp4\<lparr>terminated := True, path_exists := True\<rparr>))
         else sp2\<lparr>terminated := True,
                  path_exists := (if nodeTo_was_visited sp2 then True else False)\<rparr>)"

text \<open>
  \<open>reproduce_found_path\<close>.  The consumed triads are grouped by destination, each
  group through \<open>PriorityQueue::insert\<close>; the walk goes back from \<open>nodeTo\<close> until it
  meets \<open>nodeFrom\<close>, then the steps and the total cost are written.  The walk is a
  \<open>while\<close> loop with no bound: \<open>None\<close> is a walk that never ends.
\<close>

definition elements_of_each_destination_node :: "ShortestPath \<Rightarrow> int_int_and_num_Triad list list" where
  "elements_of_each_destination_node sp =
     map (\<lambda>i. foldl pq_insert [] (filter (\<lambda>u. triad_value2 u = i) (used_queue_elements sp)))
         (indices (V (graph sp)))"

definition walk_back :: "int_int_and_num_Triad list list \<Rightarrow> ShortestPath \<Rightarrow> ShortestPath" where
  "walk_back elements sp =
     (let rawAux = get_top_NotDelete (vec_at elements (currentNode sp))
      in sp\<lparr>raw_shortest_path := rawAux # raw_shortest_path sp, currentNode := get_value1 rawAux\<rparr>)"

definition write_step :: "int \<times> int \<times> int_and_num_Pair list \<Rightarrow> int_int_and_num_Triad \<Rightarrow> int \<times> int \<times> int_and_num_Pair list" where
  "write_step acc r =
     (let previous_cost = fst acc;
          current_cost = triad_value3 r;
          step_cost = current_cost - previous_cost
      in (current_cost, current_cost, snd (snd acc) @ [(triad_value2 r, step_cost)]))"

definition reproduce_found_path :: "ShortestPath \<Rightarrow> ShortestPath option" where
  "reproduce_found_path sp =
     (let elements = elements_of_each_destination_node sp
      in case while_option (\<lambda>s. currentNode s \<noteq> nodeFrom s) (walk_back elements)
                           (sp\<lparr>currentNode := nodeTo sp\<rparr>) of
           None \<Rightarrow> None
         | Some sp1 \<Rightarrow>
             (let acc = foldl write_step (0, 0, shortest_path sp1) (raw_shortest_path sp1)
              in Some (sp1\<lparr>shortest_path := snd (snd acc), shortest_path_cost := fst (snd acc)\<rparr>)))"

text \<open>
  \<open>seek_path\<close>.  \<open>None\<close> is a call that never returns (one of the two \<open>while\<close> loops
  runs forever).
\<close>

definition seek_path :: "ShortestPath \<Rightarrow> int \<Rightarrow> int \<Rightarrow> int list \<Rightarrow> ShortestPath option" where
  "seek_path sp0 nodeFrom' nodeTo' avoid_nodes_with_these_tags =
     (let sp1 = (if path_was_seeked sp0 = True then clear_previous sp0 else sp0);
          sp2 = sp1\<lparr>nodeFrom := nodeFrom', nodeTo := nodeTo'\<rparr>;
          banned_nodes = mark_banned (graph sp2) avoid_nodes_with_these_tags
      in if list_ex (\<lambda>node. node = nodeFrom sp2 \<or> node = nodeTo sp2) banned_nodes then
           Some (sp2\<lparr>terminated := True, path_was_seeked := True, path_exists := False\<rparr>)
         else
           (let unbanned = filter (\<lambda>i. \<not> i_is_in_vector i banned_nodes) (indices (V (graph sp2)));
                sp3 = sp2\<lparr>open_set := open_set sp2 @ filter (\<lambda>i. i \<noteq> nodeFrom sp2) unbanned,
                          closed_set := closed_set sp2 @ filter (\<lambda>i. \<not> (i \<noteq> nodeFrom sp2)) unbanned\<rparr>;
                sp4 = sp3\<lparr>tentative_costs := tentative_costs sp3 @
                            map (\<lambda>i. if i \<noteq> nodeFrom sp3 then int_max else 0) (indices (V (graph sp3)))\<rparr>;
                sp5 = sp4\<lparr>terminated := False, currentNode := nodeFrom sp4\<rparr>
            in case while_option (\<lambda>s. terminated s = False) (seek_iteration banned_nodes) sp5 of
                 None \<Rightarrow> None
               | Some sp6 \<Rightarrow>
                   (let sp7 = sp6\<lparr>path_was_seeked := True\<rparr>
                    in if path_exists sp7 = True then reproduce_found_path sp7 else Some sp7)))"

definition get_path_was_seeked :: "ShortestPath \<Rightarrow> bool" where
  "get_path_was_seeked sp = path_was_seeked sp"

definition get_path_exists :: "ShortestPath \<Rightarrow> bool" where
  "get_path_exists sp = path_exists sp"

definition get_path :: "ShortestPath \<Rightarrow> int_and_num_Pair list" where
  "get_path sp =
     (if path_was_seeked sp = True then (if path_exists sp = True then shortest_path sp else [])
      else [])"

definition get_path_cost :: "ShortestPath \<Rightarrow> int" where
  "get_path_cost sp =
     (if path_was_seeked sp = True then (if path_exists sp = True then shortest_path_cost sp else - 1)
      else - 1)"

section \<open>class Hex_Game: the win checks and the bot's choice\<close>

text \<open>The game's own member \<open>border_length\<close> is the field \<open>game_border_length\<close>.\<close>

record Hex_Game =
  board :: Hex_Board
  game_border_length :: int
  player_1_moves :: "(int \<times> int) list"
  player_2_moves :: "(int \<times> int) list"
  who_starts :: int
  vs_robot :: bool
  swap_rule :: bool
  this_is_movement_number :: int
  swap_has_been_done :: bool
  game_finished :: bool
  who_won :: int

text \<open>
  The two nested \<open>for\<close> loops shared by the three checks.  The inner loop calls
  \<open>seek_path\<close> on the one \<open>ShortestPath\<close> object for every target and breaks at the
  first success; the outer loop breaks as soon as \<open>connects\<close> is set.
\<close>

fun scan_targets :: "(int \<Rightarrow> int) \<Rightarrow> (int \<Rightarrow> int) \<Rightarrow> int list \<Rightarrow> ShortestPath \<Rightarrow> int \<Rightarrow> int list
    \<Rightarrow> (bool \<times> ShortestPath) option" where
  "scan_targets from_index to_index avoid path a [] = Some (False, path)"
| "scan_targets from_index to_index avoid path a (c # cs) =
     (case seek_path path (from_index a) (to_index c) avoid of
        None \<Rightarrow> None
      | Some path' \<Rightarrow>
          if get_path_exists path' then Some (True, path')
          else scan_targets from_index to_index avoid path' a cs)"

fun scan_sources :: "(int \<Rightarrow> int) \<Rightarrow> (int \<Rightarrow> int) \<Rightarrow> int list \<Rightarrow> ShortestPath \<Rightarrow> int list \<Rightarrow> int list
    \<Rightarrow> (bool \<times> ShortestPath) option" where
  "scan_sources from_index to_index avoid path [] cs = Some (False, path)"
| "scan_sources from_index to_index avoid path (a # as) cs =
     (case scan_targets from_index to_index avoid path a cs of
        None \<Rightarrow> None
      | Some r \<Rightarrow>
          if fst r then Some (True, snd r)
          else scan_sources from_index to_index avoid (snd r) as cs)"

text \<open>
  \<open>check_bot_won\<close> takes the board by reference; the result carries the board as the
  call leaves it.  \<open>None\<close> is a check that never returns.
\<close>

definition check_bot_won :: "Hex_Board \<Rightarrow> (bool \<times> Hex_Board) option" where
  "check_bot_won b =
     (case scan_sources (\<lambda>w. coordinate_to_nodeIndex b w 0)
                        (\<lambda>e. coordinate_to_nodeIndex b e (border_length b - 1))
                        [0, 1] (new_ShortestPath b)
                        (indices (border_length b)) (indices (border_length b)) of
        None \<Rightarrow> None
      | Some r \<Rightarrow> Some (fst r, graph (snd r)))"

definition check_connection_vertical :: "Hex_Game \<Rightarrow> (bool \<times> Hex_Game) option" where
  "check_connection_vertical g =
     (case scan_sources (\<lambda>n. coordinate_to_nodeIndex (board g) 0 n)
                        (\<lambda>s. coordinate_to_nodeIndex (board g) (game_border_length g - 1) s)
                        [0, 2] (new_ShortestPath (board g))
                        (indices (game_border_length g)) (indices (game_border_length g)) of
        None \<Rightarrow> None
      | Some r \<Rightarrow> Some (fst r, g\<lparr>board := graph (snd r)\<rparr>))"

definition check_connection_lateral :: "Hex_Game \<Rightarrow> (bool \<times> Hex_Game) option" where
  "check_connection_lateral g =
     (case scan_sources (\<lambda>w. coordinate_to_nodeIndex (board g) w 0)
                        (\<lambda>e. coordinate_to_nodeIndex (board g) e (game_border_length g - 1))
                        [0, 1] (new_ShortestPath (board g))
                        (indices (game_border_length g)) (indices (game_border_length g)) of
        None \<Rightarrow> None
      | Some r \<Rightarrow> Some (fst r, g\<lparr>board := graph (snd r)\<rparr>))"

text \<open>The constructor \<open>Hex_Game(border_length, who_starts, vs_robot, swap_rule)\<close>.\<close>

definition new_Hex_Game :: "int \<Rightarrow> int \<Rightarrow> bool \<Rightarrow> bool \<Rightarrow> Hex_Game" where
  "new_Hex_Game L starts robot swap =
     \<lparr>board = new_Hex_Board L CON_MATRIX, game_border_length = L,
      player_1_moves = [], player_2_moves = [], who_starts = starts, vs_robot = robot,
      swap_rule = swap, this_is_movement_number = 1, swap_has_been_done = False,
      game_finished = False, who_won = 0\<rparr>"

text \<open>
  The bot's choice in \<open>game_loop\<close>, after the rollouts.  \<open>nodes_and_ratios\<close> holds a
  pair (node, win ratio) for every empty cell, in index order;
  \<open>ratio_bot_victories_with_swap\<close> is the ratio of the swap rollouts, or \<open>-1\<close> when
  they were not run.  The ratios are \<open>double\<close>s \<open>wins / 750\<close>: finite values, on which
  \<open>>\<close> is the order of the numbers they denote, so they are modelled as reals.
  The result is \<open>(temp_index_of_max, temp_max, swap taken)\<close>.
\<close>

fun scan_ratios :: "(int \<times> real) list \<Rightarrow> int \<times> real \<Rightarrow> int \<times> real" where
  "scan_ratios [] best = best"
| "scan_ratios (p # ps) best =
     (if snd p > snd best then scan_ratios ps (fst p, snd p) else scan_ratios ps best)"

definition choose_bot_move :: "(int \<times> real) list \<Rightarrow> bool \<Rightarrow> real \<Rightarrow> int \<Rightarrow> int \<times> real \<times> bool" where
  "choose_bot_move nodes_and_ratios swap ratio_bot_victories_with_swap player1_first_move =
     (let start = (fst (nodes_and_ratios ! 0), snd (nodes_and_ratios ! 0));
          best = (if length nodes_and_ratios > 1 then scan_ratios (tl nodes_and_ratios) start else start)
      in if swap \<and> ratio_bot_victories_with_swap > snd best
         then (player1_first_move, ratio_bot_victories_with_swap, True)
         else (fst best, snd best, False))"

section \<open>Reference notions the code is compared with\<close>

text \<open>
  A node is allowed when it is a node of the graph and its tag is not banned.
\<close>

definition allowed_node :: "'a Graph_scheme \<Rightarrow> int list \<Rightarrow> int \<Rightarrow> bool" where
  "allowed_node g avoid v = (0 \<le> v \<and> v < V g \<and> get_node_tag g v \<notin> set avoid)"

text \<open>
  A plain breadth-first search restricted to allowed nodes: the frontier is a FIFO
  queue, every allowed and not yet visited neighbour of its head is visited and
  enqueued once.  It follows the words of the specification, not the path finder.
\<close>

function bfs_visit :: "'a Graph_scheme \<Rightarrow> int list \<Rightarrow> int list \<Rightarrow> int list \<Rightarrow> int list" where
  "bfs_visit g avoid [] visited = visited"
| "bfs_visit g avoid (u # frontier) visited =
     (let fresh = remdups (filter (\<lambda>v. allowed_node g avoid v \<and> v \<notin> set visited)
                                  (map fst (neighbors g u)))
      in bfs_visit g avoid (frontier @ fresh) (visited @ fresh))"
  by pat_completeness auto
termination
proof (relation "measures [\<lambda>(g, avoid, frontier, visited). card ({v. 0 \<le> v \<and> v < V g} - set visited),
                          \<lambda>(g, avoid, frontier, visited). length frontier]")
  show "wf (measures [\<lambda>(g :: 'a Graph_scheme, avoid :: int list, frontier :: int list, visited :: int list).
                         card ({v. 0 \<le> v \<and> v < V g} - set visited),
                      \<lambda>(g, avoid, frontier, visited). length frontier])"
    by simp
next
  fix g :: "'a Graph_scheme" and avoid u frontier visited fresh
  assume fresh: "fresh = remdups (filter (\<lambda>v. allowed_node g avoid v \<and> v \<notin> set visited)
                                  (map fst (neighbors g u)))"
  let ?N = "{v. 0 \<le> v \<and> v < V g}"
  have fin: "finite ?N"
  proof -
    have "?N = {0..<V g}" by auto
    then show ?thesis by simp
  qed
  show "((g, avoid, frontier @ fresh, visited @ fresh), (g, avoid, u # frontier, visited))
        \<in> measures [\<lambda>(g, avoid, frontier, visited). card ({v. 0 \<le> v \<and> v < V g} - set visited),
                     \<lambda>(g, avoid, frontier, visited). length frontier]"
  proof (cases "fresh = []")
    case True
    then show ?thesis by simp
  next
    case False
    then obtain w where w: "w \<in> set fresh" by (cases fresh) auto
    from w fresh have wN: "w \<in> ?N" and wv: "w \<notin> set visited"
      by (auto simp: allowed_node_def)
    have "?N - set (visited @ fresh) \<subset> ?N - set visited"
      using w wN wv by auto
    then have "card (?N - set (visited @ fresh)) < card (?N - set visited)"
      using fin by (intro psubset_card_mono) auto
    then show ?thesis by simp
  qed
qed

definition bfs_reaches :: "'a Graph_scheme \<Rightarrow> int list \<Rightarrow> int \<Rightarrow> int \<Rightarrow> bool" where
  "bfs_reaches g avoid source target =
     (allowed_node g avoid source \<and> target \<in> set (bfs_visit g avoid [source] [source]))"

text \<open>
  Two cells are joined through cells of one tag when a chain of adjacent cells, all
  carrying that tag, leads from the first to the second.
\<close>

inductive joined :: "Hex_Board \<Rightarrow> int \<Rightarrow> int \<Rightarrow> int \<Rightarrow> bool" for b :: Hex_Board and tag :: int where
  joined_start: "0 \<le> u \<Longrightarrow> u < V b \<Longrightarrow> get_node_tag b u = tag \<Longrightarrow> joined b tag u u"
| joined_step: "joined b tag u v \<Longrightarrow> adjacent b v w \<Longrightarrow> 0 \<le> w \<Longrightarrow> w < V b
                \<Longrightarrow> get_node_tag b w = tag \<Longrightarrow> joined b tag u w"

section \<open>Auxiliary notions of the proofs\<close>

text \<open>Writing the entries of one edge-list row into one matrix row.\<close>

definition write_row :: "bool_and_num_Pair list \<Rightarrow> int_and_num_Pair list \<Rightarrow> bool_and_num_Pair list" where
  "write_row r es = foldl (\<lambda>r e. r[nat (fst e) := (True, snd e)]) r es"

text \<open>
  A materialised edge list with one row per node, every target a node of the graph and
  no target twice in a row.  \<open>generate_edgeList_from_conMatrix\<close> leaves every edge list
  so (it pushes each column once).  \<open>addEdge\<close> and \<open>force_set_edge_value\<close> do not always:
  called with \<open>nodeFrom = nodeTo\<close> on a node without a loop they push the same target
  into one row twice.
\<close>

definition edge_list_ok :: "'a Graph_scheme \<Rightarrow> bool" where
  "edge_list_ok g =
     (edgeList_was_computed g \<and> 0 \<le> gsize g \<and> length (edgeList g) = nat (gsize g)
      \<and> list_all (\<lambda>row. distinct (map fst row)
                          \<and> list_all (\<lambda>e. 0 \<le> fst e \<and> fst e < gsize g) row) (edgeList g))"

definition sample_graph :: Graph where
  "sample_graph =
     \<lparr>gsize = 3, connectivityMatrix = [],
      edgeList = [[(2, 7), (1, 5)], [(0, 5)], [(0, 7)]],
      preferredRepresentation = EDGE_LIST, nodeValues = [0, 0, 0], nodeTags = [0, 0, 0],
      conMatrix_was_computed = False, edgeList_was_computed = True\<rparr>"


text \<open>
  The six coordinate offsets of the hex neighbourhood, and the shape of an \<open>n \<times> n\<close>
  matrix.
\<close>

definition hex_offset :: "int \<Rightarrow> int \<Rightarrow> bool" where
  "hex_offset dx dy =
     ((dx = - 1 \<and> dy = 0) \<or> (dx = - 1 \<and> dy = 1) \<or> (dx = 0 \<and> dy = - 1)
      \<or> (dx = 0 \<and> dy = 1) \<or> (dx = 1 \<and> dy = - 1) \<or> (dx = 1 \<and> dy = 0))"

definition square :: "nat \<Rightarrow> 'a list list \<Rightarrow> bool" where
  "square n M = (length M = n \<and> (\<forall>r \<in> set M. length r = n))"

text \<open>
  The record the constructor \<open>Hex_Board\<close> hands to \<open>generate_blank_connected_board\<close>, the
  matrix it generates, and the board after stones were placed: the freshly built board
  with the tag vector \<open>tags\<close> (\<open>set_node_tag\<close> only ever replaces \<open>nodeTags\<close>).
\<close>

definition blank_board :: "int \<Rightarrow> representationMode \<Rightarrow> Hex_Board" where
  "blank_board L repr_mode =
       \<lparr>gsize = L * L, connectivityMatrix = [], edgeList = [],
        preferredRepresentation = repr_mode,
        nodeValues = map (\<lambda>i. 0) (indices (L * L)),
        nodeTags = map (\<lambda>i. 0) (indices (L * L)),
        conMatrix_was_computed = False, edgeList_was_computed = False,
        border_length = L\<rparr>"

definition hex_matrix :: "int \<Rightarrow> bool_and_num_Pair list list" where
  "hex_matrix L = foldl (connect_node (blank_board L CON_MATRIX)) (blank_matrix (L * L)) (indices (L * L))"

definition board_with_tags :: "int \<Rightarrow> representationMode \<Rightarrow> int list \<Rightarrow> Hex_Board" where
  "board_with_tags L repr_mode tags = (new_Hex_Board L repr_mode)\<lparr>nodeTags := tags\<rparr>"

text \<open>
  What one pass of the neighbour loop of \<open>seek_path\<close> does to the queue, the other
  members being read only.
\<close>

definition relax_queue :: "int list \<Rightarrow> int list \<Rightarrow> int list \<Rightarrow> int \<Rightarrow> int_int_and_num_Triad list
    \<Rightarrow> int_and_num_Pair \<Rightarrow> int_int_and_num_Triad list" where
  "relax_queue banned opn costs cur q nb =
     (if fst nb \<in> set opn \<and> \<not> i_is_in_vector (fst nb) banned then
        (if contains_elem_with_val1_val2 q cur (fst nb) = False
            \<and> improves_cost_of_node q (cur, fst nb, snd nb + vec_at costs cur)
         then update_queue_with_shorter_path q (cur, fst nb, snd nb + vec_at costs cur)
         else q)
      else q)"


text \<open>The queue of a search state after the neighbour loop of one iteration.\<close>

definition relaxed_queue :: "int list \<Rightarrow> ShortestPath \<Rightarrow> int_int_and_num_Triad list" where
  "relaxed_queue banned sp =
     foldl (relax_queue banned (open_set sp) (tentative_costs sp) (currentNode sp)) (queue sp)
           (neighbors (graph sp) (currentNode sp))"


text \<open>
  The edges a search may follow, the nodes a search has settled (the source and the
  destinations of the consumed triads), the shape of the list of consumed triads (every
  triad starts at a node settled before it and arrives at a new one), the invariant of
  the search loop and what holds when it has ended.
\<close>

definition edge_step :: "'a Graph_scheme \<Rightarrow> int list \<Rightarrow> (int \<times> int) set" where
  "edge_step g avoid =
     {(u, v). allowed_node g avoid u \<and> allowed_node g avoid v \<and> v \<in> fst ` set (neighbors g u)}"

definition closed_nodes :: "int \<Rightarrow> int_int_and_num_Triad list \<Rightarrow> int set" where
  "closed_nodes s used = insert s ((\<lambda>e. triad_value2 e) ` set used)"

definition tree_ok :: "int \<Rightarrow> int_int_and_num_Triad list \<Rightarrow> bool" where
  "tree_ok s used =
     (distinct (map (\<lambda>e. triad_value2 e) used) \<and> s \<notin> (\<lambda>e. triad_value2 e) ` set used
      \<and> (\<forall>k < length used. fst (used ! k) \<in> closed_nodes s (take k used)))"

definition seek_inv :: "Hex_Board \<Rightarrow> int list \<Rightarrow> int \<Rightarrow> int \<Rightarrow> ShortestPath \<Rightarrow> bool" where
  "seek_inv b avoid s t sp =
     (graph sp = b \<and> nodeFrom sp = s \<and> nodeTo sp = t \<and> \<not> nodeTo_was_visited sp
      \<and> allowed_node b avoid s
      \<and> distinct (open_set sp)
      \<and> set (open_set sp) = {v. allowed_node b avoid v} - closed_nodes s (used_queue_elements sp)
      \<and> closed_nodes s (used_queue_elements sp) \<subseteq> {v. allowed_node b avoid v}
      \<and> currentNode sp \<in> closed_nodes s (used_queue_elements sp)
      \<and> distinct (map (\<lambda>e. triad_value2 e) (queue sp))
      \<and> (\<forall>e \<in> set (queue sp). triad_value2 e \<in> set (open_set sp)
             \<and> fst e \<in> closed_nodes s (used_queue_elements sp)
             \<and> triad_value2 e \<in> fst ` set (neighbors b (fst e)))
      \<and> closed_nodes s (used_queue_elements sp) \<subseteq> {v. (s, v) \<in> (edge_step b avoid)\<^sup>*}
      \<and> (\<forall>v \<in> closed_nodes s (used_queue_elements sp). v \<noteq> currentNode sp \<longrightarrow>
            (\<forall>w \<in> set (open_set sp). w \<in> fst ` set (neighbors b v)
                 \<longrightarrow> w \<in> (\<lambda>e. triad_value2 e) ` set (queue sp)))
      \<and> tree_ok s (used_queue_elements sp)
      \<and> t \<notin> (\<lambda>e. triad_value2 e) ` set (used_queue_elements sp))"

definition seek_post :: "Hex_Board \<Rightarrow> int list \<Rightarrow> int \<Rightarrow> int \<Rightarrow> ShortestPath \<Rightarrow> bool" where
  "seek_post b avoid s t sp =
     (graph sp = b \<and> nodeFrom sp = s \<and> nodeTo sp = t
      \<and> path_exists sp = (s \<noteq> t \<and> (s, t) \<in> (edge_step b avoid)\<^sup>*)
      \<and> (path_exists sp \<longrightarrow> tree_ok s (used_queue_elements sp)
            \<and> t \<in> (\<lambda>e. triad_value2 e) ` set (used_queue_elements sp)
            \<and> (\<lambda>e. triad_value2 e) ` set (used_queue_elements sp) \<subseteq> {v. 0 \<le> v \<and> v < V b}))"


text \<open>
  A \<open>ShortestPath\<close> object on which \<open>seek_path\<close> may be called: it has been searched
  before (so the call clears it) or it is as the constructor left it.  \<open>seek_start\<close> is
  the state in which \<open>seek_path\<close> enters its search loop and \<open>seek_finish\<close> is what it
  does after the loop; both are the text of \<open>seek_path\<close>.
\<close>

definition sp_ready :: "ShortestPath \<Rightarrow> bool" where
  "sp_ready sp =
     (path_was_seeked sp
      \<or> (open_set sp = [] \<and> closed_set sp = [] \<and> tentative_costs sp = [] \<and> queue sp = []
          \<and> used_queue_elements sp = [] \<and> \<not> nodeTo_was_visited sp \<and> shortest_path sp = []
          \<and> raw_shortest_path sp = []))"

definition seek_start :: "ShortestPath \<Rightarrow> int \<Rightarrow> int \<Rightarrow> int list \<Rightarrow> ShortestPath" where
  "seek_start sp0 nodeFrom' nodeTo' avoid_nodes_with_these_tags =
     (let sp1 = (if path_was_seeked sp0 = True then clear_previous sp0 else sp0);
          sp2 = sp1\<lparr>nodeFrom := nodeFrom', nodeTo := nodeTo'\<rparr>;
          banned_nodes = mark_banned (graph sp2) avoid_nodes_with_these_tags;
          unbanned = filter (\<lambda>i. \<not> i_is_in_vector i banned_nodes) (indices (V (graph sp2)));
          sp3 = sp2\<lparr>open_set := open_set sp2 @ filter (\<lambda>i. i \<noteq> nodeFrom sp2) unbanned,
                    closed_set := closed_set sp2 @ filter (\<lambda>i. \<not> (i \<noteq> nodeFrom sp2)) unbanned\<rparr>;
          sp4 = sp3\<lparr>tentative_costs := tentative_costs sp3 @
                      map (\<lambda>i. if i \<noteq> nodeFrom sp3 then int_max else 0) (indices (V (graph sp3)))\<rparr>
      in sp4\<lparr>terminated := False, currentNode := nodeFrom sp4\<rparr>)"

definition seek_finish :: "ShortestPath \<Rightarrow> ShortestPath option" where
  "seek_finish sp6 =
     (let sp7 = sp6\<lparr>path_was_seeked := True\<rparr>
      in if path_exists sp7 = True then reproduce_found_path sp7 else Some sp7)"


text \<open>
  The position of a settled node in the list of consumed triads (0 for the source): the
  walk back of \<open>reproduce_found_path\<close> descends along it.
\<close>

definition rank :: "int \<Rightarrow> int_int_and_num_Triad list \<Rightarrow> int \<Rightarrow> nat" where
  "rank s used v = (if v = s then 0 else Suc (length (takeWhile (\<lambda>u. triad_value2 u \<noteq> v) used)))"

section \<open>Vectors and index ranges\<close>

lemma vec_at_nth: "0 \<le> i \<Longrightarrow> i < int (length v) \<Longrightarrow> vec_at v i = v ! nat i"
  by (simp add: vec_at_def)

lemma vec_put_update: "0 \<le> i \<Longrightarrow> i < int (length v) \<Longrightarrow> vec_put v i x = v[nat i := x]"
  by (simp add: vec_put_def)

lemma length_indices: "length (indices n) = nat n"
  by (simp add: indices_def)

lemma set_indices: "set (indices n) = {0..<n}"
  by (auto simp: indices_def)

lemma nth_indices: "k < nat n \<Longrightarrow> indices n ! k = int k"
  by (simp add: indices_def)

lemma distinct_indices: "distinct (indices n)"
  by (simp add: indices_def)

lemma length_blank_matrix: "length (blank_matrix n) = nat n"
  by (simp add: blank_matrix_def length_indices)

lemma blank_matrix_row: "k < nat n \<Longrightarrow> blank_matrix n ! k = replicate (nat n) (False, 0)"
  by (simp add: blank_matrix_def length_indices map_replicate_const)

section \<open>PriorityQueue: insertion order (C4)\<close>

lemma pq_insert_scan: "pq_insert q x = insert_scan q x"
  by (cases q) (simp_all add: pq_insert_def)

lemma insert_scan_split:
  "\<exists>pre post. q = pre @ post \<and> insert_scan q x = pre @ x # post
     \<and> (\<forall>e \<in> set pre. triad_value3 e < triad_value3 x)
     \<and> (post \<noteq> [] \<longrightarrow> triad_value3 x \<le> triad_value3 (hd post))"
proof (induction q)
  case Nil
  then show ?case by simp
next
  case (Cons e q)
  show ?case
  proof (cases "triad_value3 e \<ge> triad_value3 x")
    case True
    have "e # q = [] @ (e # q) \<and> insert_scan (e # q) x = [] @ x # (e # q)
          \<and> (\<forall>e \<in> set []. triad_value3 e < triad_value3 x)
          \<and> (e # q \<noteq> [] \<longrightarrow> triad_value3 x \<le> triad_value3 (hd (e # q)))"
      using True by simp
    then show ?thesis by blast
  next
    case False
    from Cons.IH obtain pre post where a: "q = pre @ post" "insert_scan q x = pre @ x # post"
      "\<forall>e \<in> set pre. triad_value3 e < triad_value3 x"
      "post \<noteq> [] \<longrightarrow> triad_value3 x \<le> triad_value3 (hd post)" by blast
    have "e # q = (e # pre) @ post \<and> insert_scan (e # q) x = (e # pre) @ x # post
          \<and> (\<forall>e \<in> set (e # pre). triad_value3 e < triad_value3 x)
          \<and> (post \<noteq> [] \<longrightarrow> triad_value3 x \<le> triad_value3 (hd post))"
      using False a by auto
    then show ?thesis by blast
  qed
qed

text \<open>
  C4 (amended).  On a queue sorted by cost, \<open>insert\<close> yields a sorted queue, and the new
  triad is placed after the entries of strictly smaller cost and in front of every
  entry whose cost is equal or greater: among equal costs the newest entry comes
  first.
\<close>

theorem insert_keeps_order_newest_first:
  assumes "sorted (map (\<lambda>e. triad_value3 e) q)"
  shows "sorted (map (\<lambda>e. triad_value3 e) (pq_insert q x))
         \<and> (\<exists>pre post. q = pre @ post \<and> pq_insert q x = pre @ x # post
              \<and> (\<forall>e \<in> set pre. triad_value3 e < triad_value3 x)
              \<and> (\<forall>e \<in> set post. triad_value3 x \<le> triad_value3 e))"
proof -
  obtain pre post where a: "q = pre @ post" "insert_scan q x = pre @ x # post"
      "\<forall>e \<in> set pre. triad_value3 e < triad_value3 x"
      "post \<noteq> [] \<longrightarrow> triad_value3 x \<le> triad_value3 (hd post)"
    using insert_scan_split by blast
  have sp: "sorted (map (\<lambda>e. triad_value3 e) pre)" and spo: "sorted (map (\<lambda>e. triad_value3 e) post)"
    using assms a(1) by (simp_all add: sorted_append)
  have post: "\<forall>e \<in> set post. triad_value3 x \<le> triad_value3 e"
  proof (cases post)
    case Nil
    then show ?thesis by simp
  next
    case (Cons p ps)
    then show ?thesis using a(4) spo by auto
  qed
  have "sorted (map (\<lambda>e. triad_value3 e) (pre @ x # post))"
    using sp spo post a(3) by (fastforce simp: sorted_append)
  then show ?thesis using a post by (auto simp: pq_insert_scan)
qed

theorem insert_keeps_order_witness:
  "sorted (map (\<lambda>e. triad_value3 e) [(0, 1, 3), (0, 2, 5)])
   \<and> sorted (map (\<lambda>e. triad_value3 e) (pq_insert [(0, 1, 3), (0, 2, 5)] (1, 3, 5)))
   \<and> pq_insert [(0, 1, 3), (0, 2, 5)] (1, 3, 5) = [(0, 1, 3), (1, 3, 5), (0, 2, 5)]"
proof -
  have h: "sorted (map (\<lambda>e. triad_value3 e) [(0, 1, 3), (0, 2, 5 :: int)])" by simp
  from insert_keeps_order_newest_first [OF h, of "(1, 3, 5)"]
  have "sorted (map (\<lambda>e. triad_value3 e) (pq_insert [(0, 1, 3), (0, 2, 5)] (1, 3, 5)))" by blast
  moreover have "pq_insert [(0, 1, 3), (0, 2, 5)] (1, 3, 5) = [(0, 1, 3), (1, 3, 5), (0, 2, 5)]"
    by (simp add: pq_insert_def)
  ultimately show ?thesis using h by blast
qed

text \<open>
  C4 as stated fails: inserted after \<open>(0, 1, 5)\<close>, the triad \<open>(0, 2, 5)\<close> of equal cost
  ends up in front of it.
\<close>

theorem insert_ties_counterexample:
  "pq_insert (pq_insert [] (0, 1, 5)) (0, 2, 5) = [(0, 2, 5), (0, 1, 5)]"
  by (simp add: pq_insert_def)

section \<open>PriorityQueue: replacing the entry of a destination (C5)\<close>

text \<open>
  C5.  With two entries for destination 5 in the queue, the outer loop of
  \<open>update_queue_with_shorter_path\<close> stops after one pass (its counter has reached the
  shrunken size), so \<open>(1, 5, 4)\<close> stays beside the new triad.
\<close>

theorem update_queue_leaves_entry:
  "update_queue_with_shorter_path [(0, 5, 3), (1, 5, 4)] (2, 5, 1) = [(2, 5, 1), (1, 5, 4)]"
  by (simp add: update_queue_with_shorter_path_def pq_insert_def erase_passes.simps)

section \<open>Graph: the cost of a missing edge (C6)\<close>

lemma edge_scan_absent: "\<not> list_ex (\<lambda>e. get_value1 e = v) es \<Longrightarrow> edge_scan es v c = c"
  by (induction es) auto

text \<open>
  C6 (amended).  For a pair of nodes with no edge from the first to the second,
  \<open>get_edge_value\<close> returns the plain cost value 0.
\<close>

theorem get_edge_value_absent_is_zero:
  "\<not> adjacent g u v \<Longrightarrow> get_edge_value g u v = 0"
  by (auto simp: adjacent_def get_edge_value_def edge_scan_absent split: if_splits)

theorem get_edge_value_absent_witness:
  "\<not> adjacent (new_Hex_Board 2 CON_MATRIX) 1 1 \<and> get_edge_value (new_Hex_Board 2 CON_MATRIX) 1 1 = 0"
proof -
  have h: "\<not> adjacent (new_Hex_Board 2 CON_MATRIX) 1 1" by code_simp
  from get_edge_value_absent_is_zero [OF h] h show ?thesis by blast
qed

text \<open>
  C6 as stated fails: on the 2 x 2 board the cells 0 and 3 are not adjacent, and the
  query answers with the value 0.
\<close>

theorem get_edge_value_silent_zero:
  "\<not> adjacent (new_Hex_Board 2 CON_MATRIX) 0 3 \<and> get_edge_value (new_Hex_Board 2 CON_MATRIX) 0 3 = 0"
  by code_simp

section \<open>Round trip between the two representations (C8)\<close>

lemma length_write_row: "length (write_row r es) = length r"
  unfolding write_row_def by (induction es arbitrary: r) auto

lemma write_row_nth:
  assumes "distinct (map fst es)" "\<forall>e \<in> set es. 0 \<le> fst e" "k < length r"
  shows "write_row r es ! k = (case map_of es (int k) of None \<Rightarrow> r ! k | Some c \<Rightarrow> (True, c))"
  using assms
proof (induction es arbitrary: r)
  case Nil
  then show ?case by (simp add: write_row_def)
next
  case (Cons e es)
  have step: "write_row r (e # es) = write_row (r[nat (fst e) := (True, snd e)]) es"
    by (simp add: write_row_def)
  have ih: "write_row (r[nat (fst e) := (True, snd e)]) es ! k =
        (case map_of es (int k) of None \<Rightarrow> (r[nat (fst e) := (True, snd e)]) ! k | Some c \<Rightarrow> (True, c))"
    using Cons.IH [of "r[nat (fst e) := (True, snd e)]"] Cons.prems by simp
  show ?case
  proof (cases "fst e = int k")
    case True
    then have "int k \<notin> fst ` set es" using Cons.prems(1) by auto
    then have "map_of es (int k) = None" by (simp add: map_of_eq_None_iff)
    then show ?thesis using True ih step Cons.prems(3) by (cases e) simp
  next
    case False
    then have "nat (fst e) \<noteq> k" using Cons.prems(2) by auto
    then show ?thesis using False ih step by (cases e) (simp split: option.splits)
  qed
qed

lemma fold_set_entry_row:
  assumes "0 \<le> i" "i < int (length M)" "\<forall>e \<in> set es. 0 \<le> fst e \<and> fst e < int (length (M ! nat i))"
  shows "foldl (\<lambda>M e. set_entry M i (get_value1 e) (True, get_value2 e)) M es
         = M[nat i := write_row (M ! nat i) es]"
  using assms
proof (induction es arbitrary: M)
  case Nil
  then show ?case by (simp add: write_row_def)
next
  case (Cons e es)
  let ?M1 = "M[nat i := (M ! nat i)[nat (fst e) := (True, snd e)]]"
  have e: "0 \<le> fst e" "fst e < int (length (M ! nat i))" using Cons.prems(3) by auto
  have one: "set_entry M i (fst e) (True, snd e) = ?M1"
    using Cons.prems(1,2) e by (simp add: set_entry_def vec_at_nth vec_put_update)
  have i: "nat i < length M" using Cons.prems(1,2) by simp
  have "foldl (\<lambda>M e. set_entry M i (get_value1 e) (True, get_value2 e)) ?M1 es
        = ?M1[nat i := write_row (?M1 ! nat i) es]"
    using Cons.prems i by (intro Cons.IH) auto
  then show ?case using one i by (simp add: write_row_def)
qed

lemma fold_rows:
  assumes "distinct ixs" "\<forall>i \<in> set ixs. 0 \<le> i \<and> i < int n"
    "length M = n" "\<forall>r \<in> set M. length r = n"
    "length EL = n" "\<forall>row \<in> set EL. \<forall>e \<in> set row. 0 \<le> fst e \<and> fst e < int n"
  shows "length (foldl (\<lambda>M i. foldl (\<lambda>M e. set_entry M i (get_value1 e) (True, get_value2 e)) M (vec_at EL i)) M ixs) = n
       \<and> (\<forall>k < n. foldl (\<lambda>M i. foldl (\<lambda>M e. set_entry M i (get_value1 e) (True, get_value2 e)) M (vec_at EL i)) M ixs ! k
                  = (if int k \<in> set ixs then write_row (M ! k) (EL ! k) else M ! k))"
  using assms
proof (induction ixs arbitrary: M)
  case Nil
  then show ?case by simp
next
  case (Cons i ixs)
  let ?inner = "\<lambda>M i. foldl (\<lambda>M e. set_entry M i (get_value1 e) (True, get_value2 e)) M (vec_at EL i)"
  have i: "0 \<le> i" "i < int n" "nat i < n" using Cons.prems(2) by auto
  have row: "vec_at EL i = EL ! nat i" using i Cons.prems(5) by (simp add: vec_at_nth)
  have lenr: "length (M ! nat i) = n" using Cons.prems(3,4) i by simp
  have "\<forall>e \<in> set (EL ! nat i). 0 \<le> fst e \<and> fst e < int (length (M ! nat i))"
    using Cons.prems(5,6) i lenr by (metis nth_mem)
  then have M1: "?inner M i = M[nat i := write_row (M ! nat i) (EL ! nat i)]"
    using fold_set_entry_row [of i M "EL ! nat i"] i Cons.prems(3) row by simp
  let ?M1 = "M[nat i := write_row (M ! nat i) (EL ! nat i)]"
  have len1: "length ?M1 = n" using Cons.prems(3) by simp
  have rows1: "\<forall>r \<in> set ?M1. length r = n"
  proof
    fix r assume "r \<in> set ?M1"
    then have "r \<in> insert (write_row (M ! nat i) (EL ! nat i)) (set M)"
      using set_update_subset_insert by fastforce
    then show "length r = n" using Cons.prems(4) lenr by (auto simp: length_write_row)
  qed
  have ih: "length (foldl ?inner ?M1 ixs) = n
       \<and> (\<forall>k < n. foldl ?inner ?M1 ixs ! k = (if int k \<in> set ixs then write_row (?M1 ! k) (EL ! k) else ?M1 ! k))"
    using Cons.prems len1 rows1 by (intro Cons.IH) auto
  have fold: "foldl ?inner M (i # ixs) = foldl ?inner ?M1 ixs" using M1 by simp
  have "\<forall>k < n. foldl ?inner ?M1 ixs ! k = (if int k \<in> set (i # ixs) then write_row (M ! k) (EL ! k) else M ! k)"
  proof (intro allI impI)
    fix k assume k: "k < n"
    show "foldl ?inner ?M1 ixs ! k = (if int k \<in> set (i # ixs) then write_row (M ! k) (EL ! k) else M ! k)"
    proof (cases "int k = i")
      case True
      then have "int k \<notin> set ixs" using Cons.prems(1) by auto
      moreover have "?M1 ! k = write_row (M ! k) (EL ! k)" using True k Cons.prems(3) by auto
      ultimately show ?thesis using ih k True by simp
    next
      case False
      then have "nat i \<noteq> k" using i by auto
      then have "?M1 ! k = M ! k" by simp
      then show ?thesis using ih k False by simp
    qed
  qed
  then show ?case using ih fold by simp
qed

lemma matrix_from_edge_list:
  assumes "edge_list_ok g" "0 \<le> u" "u < gsize g" "0 \<le> v" "v < gsize g"
  shows "vec_at (vec_at (connectivityMatrix (generate_conMatrix_from_edgeList g)) u) v
         = (case map_of (vec_at (edgeList g) u) v of None \<Rightarrow> (False, 0) | Some c \<Rightarrow> (True, c))"
    and "length (connectivityMatrix (generate_conMatrix_from_edgeList g)) = nat (gsize g)"
    and "length (connectivityMatrix (generate_conMatrix_from_edgeList g) ! nat u) = nat (gsize g)"
proof -
  let ?n = "nat (gsize g)"
  let ?EL = "edgeList g"
  let ?M = "connectivityMatrix (generate_conMatrix_from_edgeList g)"
  have ok: "edgeList_was_computed g" "0 \<le> gsize g" "length ?EL = ?n"
    "\<forall>row \<in> set ?EL. distinct (map fst row) \<and> (\<forall>e \<in> set row. 0 \<le> fst e \<and> fst e < gsize g)"
    using assms(1) by (auto simp: edge_list_ok_def list_all_iff)
  have M: "?M = foldl (\<lambda>M i. foldl (\<lambda>M e. set_entry M i (get_value1 e) (True, get_value2 e)) M (vec_at ?EL i))
                   (blank_matrix (gsize g)) (indices (gsize g))"
    using ok(1) by (simp add: generate_conMatrix_from_edgeList_def)
  have blank_rows: "\<forall>r \<in> set (blank_matrix (gsize g)). length r = ?n"
    by (auto simp: blank_matrix_def length_indices)
  have f: "length ?M = ?n \<and> (\<forall>k < ?n. ?M ! k =
             (if int k \<in> set (indices (gsize g)) then write_row (blank_matrix (gsize g) ! k) (?EL ! k)
              else blank_matrix (gsize g) ! k))"
    unfolding M
    using ok blank_rows
    by (intro fold_rows) (auto simp: distinct_indices set_indices length_blank_matrix)
  have u: "nat u < ?n" and v: "nat v < ?n" using assms by auto
  have uin: "int (nat u) \<in> set (indices (gsize g))" using assms by (simp add: set_indices)
  have rowu: "?M ! nat u = write_row (replicate ?n (False, 0)) (?EL ! nat u)"
    using f u uin by (simp add: blank_matrix_row)
  show "length ?M = ?n" using f by simp
  show "length (?M ! nat u) = ?n" using rowu by (simp add: length_write_row)
  have elu: "?EL ! nat u \<in> set ?EL" using u ok(3) by simp
  have "write_row (replicate ?n (False, 0)) (?EL ! nat u) ! nat v =
        (case map_of (?EL ! nat u) (int (nat v)) of None \<Rightarrow> replicate ?n (False, 0) ! nat v | Some c \<Rightarrow> (True, c))"
    using ok(4) elu v by (intro write_row_nth) auto
  then have "?M ! nat u ! nat v = (case map_of (?EL ! nat u) v of None \<Rightarrow> (False, 0) | Some c \<Rightarrow> (True, c))"
    using rowu v assms(4) by (simp split: option.splits)
  moreover have "vec_at (vec_at ?M u) v = ?M ! nat u ! nat v"
    using f u v assms \<open>length (?M ! nat u) = ?n\<close> by (simp add: vec_at_nth)
  moreover have "vec_at ?EL u = ?EL ! nat u" using ok(3) assms by (simp add: vec_at_nth)
  ultimately show "vec_at (vec_at ?M u) v
         = (case map_of (vec_at ?EL u) v of None \<Rightarrow> (False, 0) | Some c \<Rightarrow> (True, c))" by simp
qed


lemma edge_scan_map_of:
  "edge_scan es v d = (case map_of es v of None \<Rightarrow> d | Some c \<Rightarrow> c)"
  by (induction es) auto

lemma list_ex_fst_map_of: "list_ex (\<lambda>e. fst e = v) es = (map_of es v \<noteq> None)"
  by (induction es) auto

lemma round_trip_row:
  assumes "edge_list_ok g" "0 \<le> u" "u < gsize g"
  shows "set (matrix_row_edges (connectivityMatrix (generate_conMatrix_from_edgeList g)) (gsize g) u)
           = set (vec_at (edgeList g) u)"
    and "distinct (map fst (matrix_row_edges (connectivityMatrix (generate_conMatrix_from_edgeList g)) (gsize g) u))"
proof -
  let ?M = "connectivityMatrix (generate_conMatrix_from_edgeList g)"
  let ?row = "vec_at (edgeList g) u"
  have ok: "length (edgeList g) = nat (gsize g)"
    "\<forall>row \<in> set (edgeList g). distinct (map fst row) \<and> (\<forall>e \<in> set row. 0 \<le> fst e \<and> fst e < gsize g)"
    using assms(1) by (auto simp: edge_list_ok_def list_all_iff)
  have "?row = edgeList g ! nat u" using ok(1) assms by (simp add: vec_at_nth)
  then have "?row \<in> set (edgeList g)" using ok(1) assms by simp
  then have d: "distinct (map fst ?row)" and r: "\<forall>e \<in> set ?row. 0 \<le> fst e \<and> fst e < gsize g"
    using ok(2) by auto
  have entry: "\<And>j. 0 \<le> j \<Longrightarrow> j < gsize g \<Longrightarrow>
      vec_at (vec_at ?M u) j = (case map_of ?row j of None \<Rightarrow> (False, 0) | Some c \<Rightarrow> (True, c))"
    using matrix_from_edge_list(1) [OF assms] by simp
  show "set (matrix_row_edges ?M (gsize g) u) = set ?row"
  proof (intro set_eqI iffI)
    fix e assume "e \<in> set (matrix_row_edges ?M (gsize g) u)"
    then obtain j where j: "0 \<le> j" "j < gsize g" "fst (vec_at (vec_at ?M u) j)"
        "e = (j, snd (vec_at (vec_at ?M u) j))"
      by (auto simp: matrix_row_edges_def set_indices)
    then obtain c where "map_of ?row j = Some c" "e = (j, c)"
      using entry [OF j(1,2)] by (auto split: option.splits)
    then show "e \<in> set ?row" using d by simp
  next
    fix e assume e: "e \<in> set ?row"
    then have j: "0 \<le> fst e" "fst e < gsize g" using r by auto
    have "map_of ?row (fst e) = Some (snd e)" using e d by simp
    then have "vec_at (vec_at ?M u) (fst e) = (True, snd e)" using entry [OF j] by simp
    then have "(fst e, snd e) \<in> set (matrix_row_edges ?M (gsize g) u)"
      using j by (force simp: matrix_row_edges_def set_indices)
    then show "e \<in> set (matrix_row_edges ?M (gsize g) u)" by simp
  qed
  have "map fst (matrix_row_edges ?M (gsize g) u)
        = filter (\<lambda>j. fst (vec_at (vec_at ?M u) j) = True) (indices (gsize g))"
    by (simp add: matrix_row_edges_def comp_def)
  then show "distinct (map fst (matrix_row_edges ?M (gsize g) u))"
    by (simp add: distinct_indices)
qed

text \<open>
  On a graph whose edge list is materialised with one row per node and the targets of
  each row in range and pairwise distinct, the matrix derived from the list and the list
  derived back from that matrix give, for every node, the same set of (target, cost)
  entries, the same answers of \<open>adjacent\<close> and the same costs from \<open>get_edge_value\<close>.
\<close>

theorem edge_list_round_trip:
  assumes "edge_list_ok g" "0 \<le> u" "u < gsize g"
  shows "set (neighbors (generate_edgeList_from_conMatrix (generate_conMatrix_from_edgeList g)) u)
           = set (neighbors g u)
         \<and> adjacent (generate_edgeList_from_conMatrix (generate_conMatrix_from_edgeList g)) u v
           = adjacent g u v
         \<and> get_edge_value (generate_edgeList_from_conMatrix (generate_conMatrix_from_edgeList g)) u v
           = get_edge_value g u v"
proof -
  let ?g1 = "generate_conMatrix_from_edgeList g"
  let ?g2 = "generate_edgeList_from_conMatrix ?g1"
  let ?row = "vec_at (edgeList g) u"
  let ?row' = "matrix_row_edges (connectivityMatrix ?g1) (gsize g) u"
  have ok: "edgeList_was_computed g" "0 \<le> gsize g" "length (edgeList g) = nat (gsize g)"
    "\<forall>row \<in> set (edgeList g). distinct (map fst row) \<and> (\<forall>e \<in> set row. 0 \<le> fst e \<and> fst e < gsize g)"
    using assms(1) by (auto simp: edge_list_ok_def list_all_iff)
  have g1: "conMatrix_was_computed ?g1" "gsize ?g1 = gsize g" "edgeList_was_computed ?g1"
    using ok(1) by (simp_all add: generate_conMatrix_from_edgeList_def)
  have g2: "edgeList_was_computed ?g2"
    "edgeList ?g2 = map (matrix_row_edges (connectivityMatrix ?g1) (gsize g)) (indices (gsize g))"
    using g1 by (simp_all add: generate_edgeList_from_conMatrix_def)
  have row2: "vec_at (edgeList ?g2) u = ?row'"
    using g2(2) assms(2,3) by (simp add: vec_at_nth length_indices nth_indices)
  have "?row = edgeList g ! nat u" using ok(3) assms by (simp add: vec_at_nth)
  then have "?row \<in> set (edgeList g)" using ok(3) assms by simp
  then have d: "distinct (map fst ?row)" using ok(4) by auto
  have s: "set ?row' = set ?row" and d': "distinct (map fst ?row')"
    using round_trip_row [OF assms] by simp_all
  have m: "map_of ?row' = map_of ?row" using s d d' by (simp add: map_of_inject_set)
  have "set (neighbors ?g2 u) = set (neighbors g u)"
    using g2(1) ok(1) row2 s by (simp add: neighbors_def)
  moreover have "adjacent ?g2 u v = adjacent g u v"
    using g2(1) ok(1) row2 m by (simp add: adjacent_def list_ex_fst_map_of)
  moreover have "get_edge_value ?g2 u v = get_edge_value g u v"
    using g2(1) ok(1) row2 m by (simp add: get_edge_value_def edge_scan_map_of)
  ultimately show ?thesis by blast
qed

theorem edge_list_round_trip_witness:
  "edge_list_ok sample_graph
   \<and> adjacent (generate_edgeList_from_conMatrix (generate_conMatrix_from_edgeList sample_graph)) 0 2
   \<and> get_edge_value (generate_edgeList_from_conMatrix (generate_conMatrix_from_edgeList sample_graph)) 0 2 = 7
   \<and> neighbors (generate_edgeList_from_conMatrix (generate_conMatrix_from_edgeList sample_graph)) 0
       = [(1, 5), (2, 7)]"
proof -
  have ok: "edge_list_ok sample_graph" by (simp add: edge_list_ok_def sample_graph_def)
  have u: "(0::int) \<le> 0" "0 < gsize sample_graph" by (simp_all add: sample_graph_def)
  have a: "adjacent sample_graph 0 2" by code_simp
  have c: "get_edge_value sample_graph 0 2 = 7" by code_simp
  have n: "neighbors (generate_edgeList_from_conMatrix (generate_conMatrix_from_edgeList sample_graph)) 0
       = [(1, 5), (2, 7)]" by code_simp
  from edge_list_round_trip [OF ok u, of 2] a c n ok show ?thesis by simp
qed

text \<open>
  C8.  The round trip does not reproduce every cost on every graph whose edge list is
  materialised.  On the 2 x 2 board in edge-list mode, \<open>addEdge(0, 0, 5)\<close> pushes the
  entry for the loop at node 0 twice into row 0, and \<open>force_set_edge_value(0, 0, 7)\<close>
  rewrites the first of the two only.  The edge list then answers 7 for the cost of the
  loop; the matrix derived from it keeps the entry written last, and the edge list
  derived back answers 5.
\<close>

theorem round_trip_self_loop_changes_cost:
  "edgeList_was_computed (force_set_edge_value (addEdge (new_Hex_Board 2 EDGE_LIST) 0 0 5) 0 0 7)
   \<and> vec_at (edgeList (force_set_edge_value (addEdge (new_Hex_Board 2 EDGE_LIST) 0 0 5) 0 0 7)) 0
       = [(1, 1), (2, 1), (0, 7), (0, 5)]
   \<and> adjacent (force_set_edge_value (addEdge (new_Hex_Board 2 EDGE_LIST) 0 0 5) 0 0 7) 0 0
   \<and> get_edge_value (force_set_edge_value (addEdge (new_Hex_Board 2 EDGE_LIST) 0 0 5) 0 0 7) 0 0 = 7
   \<and> adjacent (generate_edgeList_from_conMatrix (generate_conMatrix_from_edgeList
         (force_set_edge_value (addEdge (new_Hex_Board 2 EDGE_LIST) 0 0 5) 0 0 7))) 0 0
   \<and> get_edge_value (generate_edgeList_from_conMatrix (generate_conMatrix_from_edgeList
         (force_set_edge_value (addEdge (new_Hex_Board 2 EDGE_LIST) 0 0 5) 0 0 7))) 0 0 = 5"
  by code_simp

section \<open>The hex adjacency of a fresh board (C7)\<close>

lemma hex_offset_coords:
  "hex_offset (X - x) (Y - y) =
     ((X = x - 1 \<and> Y = y) \<or> (X = x - 1 \<and> Y = y + 1) \<or> (X = x \<and> Y = y - 1)
      \<or> (X = x \<and> Y = y + 1) \<or> (X = x + 1 \<and> Y = y - 1) \<or> (X = x + 1 \<and> Y = y))"
proof -
  have "(X - x = - 1) = (X = x - 1)" "(X - x = 0) = (X = x)" "(X - x = 1) = (X = x + 1)"
       "(Y - y = - 1) = (Y = y - 1)" "(Y - y = 0) = (Y = y)" "(Y - y = 1) = (Y = y + 1)"
    by linarith+
  then show ?thesis unfolding hex_offset_def by simp
qed

lemma sdiv_nonneg: "0 \<le> a \<Longrightarrow> 0 < L \<Longrightarrow> a sdiv L = a div (L :: int)"
  by (simp add: signed_divide_int_def sgn_if)

lemma smod_nonneg: "0 \<le> a \<Longrightarrow> 0 < L \<Longrightarrow> a smod L = a mod (L :: int)"
  by (simp add: smod_mod_positive)

lemma cell_eq:
  fixes L :: int
  assumes "0 < L" "0 \<le> y" "y < L"
  shows "(a = x * L + y) = (a div L = x \<and> a mod L = y)"
proof
  assume "a = x * L + y"
  then show "a div L = x \<and> a mod L = y" using assms by simp
next
  assume "a div L = x \<and> a mod L = y"
  then have "a div L * L + a mod L = x * L + y" by simp
  then show "a = x * L + y" by simp
qed

lemma cell_bounds:
  fixes L :: int
  assumes "0 < L" "0 \<le> a" "a < L * L"
  shows "0 \<le> a div L" "a div L < L" "0 \<le> a mod L" "a mod L < L"
proof -
  show "0 \<le> a div L" using assms by (simp add: pos_imp_zdiv_nonneg_iff)
  show "0 \<le> a mod L" using assms by simp
  show "a mod L < L" using assms by simp
  show "a div L < L"
  proof (rule ccontr)
    assume "\<not> a div L < L"
    then have "L * L \<le> a div L * L" using assms(1) by (intro mult_right_mono) auto
    moreover have "a = a div L * L + a mod L" by simp
    moreover have "0 \<le> a mod L" using assms by simp
    ultimately show False using assms(3) by linarith
  qed
qed

lemma cell_range:
  fixes L :: int
  assumes "0 \<le> x" "x < L" "0 \<le> y" "y < L"
  shows "0 \<le> x * L + y" "x * L + y < L * L"
proof -
  show "0 \<le> x * L + y" using assms by simp
  have "x * L \<le> (L - 1) * L" using assms by (intro mult_right_mono) auto
  then have "x * L + y < (L - 1) * L + L" using assms by linarith
  then show "x * L + y < L * L" by (simp add: algebra_simps)
qed

lemma hex_connect_member:
  fixes L :: int
  assumes "2 \<le> L" "0 \<le> x" "x < L" "0 \<le> y" "y < L" "0 \<le> a" "a < L * L"
  shows "a \<in> set (hex_connect_from L x y) \<longleftrightarrow> hex_offset (a div L - x) (a mod L - y)"
proof -
  have L: "0 < L" using assms by simp
  note b = cell_bounds [OF L assms(6,7)]
  define X where "X = a div L"
  define Y where "Y = a mod L"
  have B: "0 \<le> X" "X < L" "0 \<le> Y" "Y < L" using b by (simp_all add: X_def Y_def)
  have n1: "(a = (x - 1) * L + y) = (X = x - 1 \<and> Y = y)"
    using cell_eq [OF L assms(4,5)] by (simp add: X_def Y_def)
  have n2: "y + 1 < L \<Longrightarrow> (a = (x - 1) * L + y + 1) = (X = x - 1 \<and> Y = y + 1)"
    using cell_eq [OF L, of "y + 1" a "x - 1"] assms by (simp add: add.assoc X_def Y_def)
  have n3: "0 < y \<Longrightarrow> (a = x * L + y - 1) = (X = x \<and> Y = y - 1)"
    using cell_eq [OF L, of "y - 1" a x] assms by (simp add: algebra_simps X_def Y_def)
  have n4: "y + 1 < L \<Longrightarrow> (a = x * L + y + 1) = (X = x \<and> Y = y + 1)"
    using cell_eq [OF L, of "y + 1" a x] assms by (simp add: add.assoc X_def Y_def)
  have n5: "0 < y \<Longrightarrow> (a = (x + 1) * L + y - 1) = (X = x + 1 \<and> Y = y - 1)"
    using cell_eq [OF L, of "y - 1" a "x + 1"] assms by (simp add: algebra_simps X_def Y_def)
  have n6: "(a = (x + 1) * L + y) = (X = x + 1 \<and> Y = y)"
    using cell_eq [OF L assms(4,5)] by (simp add: X_def Y_def)
  have xs: "x = 0 \<or> x = L - 1 \<or> (0 < x \<and> x < L - 1)" using assms by linarith
  have ys: "y = 0 \<or> y = L - 1 \<or> (0 < y \<and> y < L - 1)" using assms by linarith
  have goal: "a \<in> set (hex_connect_from L x y) \<longleftrightarrow> hex_offset (X - x) (Y - y)"
  proof -
    consider (tl) "x = 0" "y = 0" | (br) "x = L - 1" "y = L - 1" | (bl) "x = L - 1" "y = 0" | (tr) "x = 0" "y = L - 1" | (it) "x = 0" "0 < y" "y < L - 1" | (ib) "x = L - 1" "0 < y" "y < L - 1" | (il) "0 < x" "x < L - 1" "y = 0" | (ir) "0 < x" "x < L - 1" "y = L - 1" | (gen) "0 < x" "x < L - 1" "0 < y" "y < L - 1"
      using xs ys assms(1) by fastforce
    then show ?thesis
    proof cases
      case tl
      have l: "hex_connect_from L x y = [x * L + y + 1, (x + 1) * L + y]"
        using tl assms(1) by (simp add: hex_connect_from_def)
      have c: "y + 1 < L" using tl assms(1) by simp_all
      have m: "a \<in> set (hex_connect_from L x y) \<longleftrightarrow> ((X = x \<and> Y = y + 1) \<or> (X = x + 1 \<and> Y = y))"
        unfolding l using c by (simp add: n4 n6)
      show ?thesis unfolding m hex_offset_coords using B tl by simp
    next
      case br
      have l: "hex_connect_from L x y = [(x - 1) * L + y, x * L + y - 1]"
        using br assms(1) by (simp add: hex_connect_from_def)
      have c: "0 < y" using br assms(1) by simp_all
      have m: "a \<in> set (hex_connect_from L x y) \<longleftrightarrow> ((X = x - 1 \<and> Y = y) \<or> (X = x \<and> Y = y - 1))"
        unfolding l using c by (simp add: n1 n3)
      show ?thesis unfolding m hex_offset_coords using B br by simp
    next
      case bl
      have l: "hex_connect_from L x y = [(x - 1) * L + y, (x - 1) * L + y + 1, x * L + y + 1]"
        using bl assms(1) by (simp add: hex_connect_from_def)
      have c: "y + 1 < L" using bl assms(1) by simp_all
      have m: "a \<in> set (hex_connect_from L x y) \<longleftrightarrow> ((X = x - 1 \<and> Y = y) \<or> (X = x - 1 \<and> Y = y + 1) \<or> (X = x \<and> Y = y + 1))"
        unfolding l using c by (simp add: n1 n2 n4)
      show ?thesis unfolding m hex_offset_coords using B bl by simp
    next
      case tr
      have l: "hex_connect_from L x y = [x * L + y - 1, (x + 1) * L + y - 1, (x + 1) * L + y]"
        using tr assms(1) by (simp add: hex_connect_from_def)
      have c: "0 < y" using tr assms(1) by simp_all
      have m: "a \<in> set (hex_connect_from L x y) \<longleftrightarrow> ((X = x \<and> Y = y - 1) \<or> (X = x + 1 \<and> Y = y - 1) \<or> (X = x + 1 \<and> Y = y))"
        unfolding l using c by (simp add: n3 n5 n6)
      show ?thesis unfolding m hex_offset_coords using B tr by simp
    next
      case it
      have l: "hex_connect_from L x y = [x * L + y - 1, x * L + y + 1, (x + 1) * L + y - 1, (x + 1) * L + y]"
        using it assms(1) by (simp add: hex_connect_from_def)
      have c: "0 < y" "y + 1 < L" using it assms(1) by simp_all
      have m: "a \<in> set (hex_connect_from L x y) \<longleftrightarrow> ((X = x \<and> Y = y - 1) \<or> (X = x \<and> Y = y + 1) \<or> (X = x + 1 \<and> Y = y - 1) \<or> (X = x + 1 \<and> Y = y))"
        unfolding l using c by (simp add: n3 n4 n5 n6)
      show ?thesis unfolding m hex_offset_coords using B it by simp
    next
      case ib
      have l: "hex_connect_from L x y = [(x - 1) * L + y, (x - 1) * L + y + 1, x * L + y - 1, x * L + y + 1]"
        using ib assms(1) by (simp add: hex_connect_from_def)
      have c: "0 < y" "y + 1 < L" using ib assms(1) by simp_all
      have m: "a \<in> set (hex_connect_from L x y) \<longleftrightarrow> ((X = x - 1 \<and> Y = y) \<or> (X = x - 1 \<and> Y = y + 1) \<or> (X = x \<and> Y = y - 1) \<or> (X = x \<and> Y = y + 1))"
        unfolding l using c by (simp add: n1 n2 n3 n4)
      show ?thesis unfolding m hex_offset_coords using B ib by simp
    next
      case il
      have l: "hex_connect_from L x y = [(x - 1) * L + y, (x - 1) * L + y + 1, x * L + y + 1, (x + 1) * L + y]"
        using il assms(1) by (simp add: hex_connect_from_def)
      have c: "y + 1 < L" using il assms(1) by simp_all
      have m: "a \<in> set (hex_connect_from L x y) \<longleftrightarrow> ((X = x - 1 \<and> Y = y) \<or> (X = x - 1 \<and> Y = y + 1) \<or> (X = x \<and> Y = y + 1) \<or> (X = x + 1 \<and> Y = y))"
        unfolding l using c by (simp add: n1 n2 n4 n6)
      show ?thesis unfolding m hex_offset_coords using B il by simp
    next
      case ir
      have l: "hex_connect_from L x y = [(x - 1) * L + y, x * L + y - 1, (x + 1) * L + y - 1, (x + 1) * L + y]"
        using ir assms(1) by (simp add: hex_connect_from_def)
      have c: "0 < y" using ir assms(1) by simp_all
      have m: "a \<in> set (hex_connect_from L x y) \<longleftrightarrow> ((X = x - 1 \<and> Y = y) \<or> (X = x \<and> Y = y - 1) \<or> (X = x + 1 \<and> Y = y - 1) \<or> (X = x + 1 \<and> Y = y))"
        unfolding l using c by (simp add: n1 n3 n5 n6)
      show ?thesis unfolding m hex_offset_coords using B ir by simp
    next
      case gen
      have l: "hex_connect_from L x y = [(x - 1) * L + y, (x - 1) * L + y + 1, x * L + y - 1, x * L + y + 1, (x + 1) * L + y - 1, (x + 1) * L + y]"
        using gen assms(1) by (simp add: hex_connect_from_def)
      have c: "0 < y" "y + 1 < L" using gen assms(1) by simp_all
      have m: "a \<in> set (hex_connect_from L x y) \<longleftrightarrow> ((X = x - 1 \<and> Y = y) \<or> (X = x - 1 \<and> Y = y + 1) \<or> (X = x \<and> Y = y - 1) \<or> (X = x \<and> Y = y + 1) \<or> (X = x + 1 \<and> Y = y - 1) \<or> (X = x + 1 \<and> Y = y))"
        unfolding l using c by (simp add: n1 n2 n3 n4 n5 n6)
      show ?thesis unfolding m hex_offset_coords using B gen by simp
    qed
  qed
  then show ?thesis by (simp add: X_def Y_def)
qed

lemma cell_range_conj:
  fixes L :: int
  assumes "0 \<le> x" "x < L" "0 \<le> y" "y < L"
  shows "0 \<le> x * L + y \<and> x * L + y < L * L"
  using cell_range [OF assms] by simp

lemma hex_connect_in_range:
  fixes L :: int
  assumes "2 \<le> L" "0 \<le> x" "x < L" "0 \<le> y" "y < L" "a \<in> set (hex_connect_from L x y)"
  shows "0 \<le> a \<and> a < L * L"
proof -
  have f1: "0 < x \<Longrightarrow> 0 \<le> (x - 1) * L + y \<and> (x - 1) * L + y < L * L"
  proof -
    assume "0 < x"
    then have "0 \<le> x - 1" "x - 1 < L" "0 \<le> y" "y < L" using assms(2-5) by linarith+
    then have "0 \<le> (x - 1) * L + (y) \<and> (x - 1) * L + (y) < L * L" by (rule cell_range_conj)
    moreover have "(x - 1) * L + (y) = (x - 1) * L + y" by simp
    ultimately show ?thesis by simp
  qed
  have f2: "0 < x \<Longrightarrow> y + 1 < L \<Longrightarrow> 0 \<le> (x - 1) * L + y + 1 \<and> (x - 1) * L + y + 1 < L * L"
  proof -
    assume "0 < x" "y + 1 < L"
    then have "0 \<le> x - 1" "x - 1 < L" "0 \<le> y + 1" "y + 1 < L" using assms(2-5) by linarith+
    then have "0 \<le> (x - 1) * L + (y + 1) \<and> (x - 1) * L + (y + 1) < L * L" by (rule cell_range_conj)
    moreover have "(x - 1) * L + (y + 1) = (x - 1) * L + y + 1" by simp
    ultimately show ?thesis by simp
  qed
  have f3: "0 < y \<Longrightarrow> 0 \<le> x * L + y - 1 \<and> x * L + y - 1 < L * L"
  proof -
    assume "0 < y"
    then have "0 \<le> x" "x < L" "0 \<le> y - 1" "y - 1 < L" using assms(2-5) by linarith+
    then have "0 \<le> (x) * L + (y - 1) \<and> (x) * L + (y - 1) < L * L" by (rule cell_range_conj)
    moreover have "(x) * L + (y - 1) = x * L + y - 1" by simp
    ultimately show ?thesis by simp
  qed
  have f4: "y + 1 < L \<Longrightarrow> 0 \<le> x * L + y + 1 \<and> x * L + y + 1 < L * L"
  proof -
    assume "y + 1 < L"
    then have "0 \<le> x" "x < L" "0 \<le> y + 1" "y + 1 < L" using assms(2-5) by linarith+
    then have "0 \<le> (x) * L + (y + 1) \<and> (x) * L + (y + 1) < L * L" by (rule cell_range_conj)
    moreover have "(x) * L + (y + 1) = x * L + y + 1" by simp
    ultimately show ?thesis by simp
  qed
  have f5: "x + 1 < L \<Longrightarrow> 0 < y \<Longrightarrow> 0 \<le> (x + 1) * L + y - 1 \<and> (x + 1) * L + y - 1 < L * L"
  proof -
    assume "x + 1 < L" "0 < y"
    then have "0 \<le> x + 1" "x + 1 < L" "0 \<le> y - 1" "y - 1 < L" using assms(2-5) by linarith+
    then have "0 \<le> (x + 1) * L + (y - 1) \<and> (x + 1) * L + (y - 1) < L * L" by (rule cell_range_conj)
    moreover have "(x + 1) * L + (y - 1) = (x + 1) * L + y - 1" by simp
    ultimately show ?thesis by simp
  qed
  have f6: "x + 1 < L \<Longrightarrow> 0 \<le> (x + 1) * L + y \<and> (x + 1) * L + y < L * L"
  proof -
    assume "x + 1 < L"
    then have "0 \<le> x + 1" "x + 1 < L" "0 \<le> y" "y < L" using assms(2-5) by linarith+
    then have "0 \<le> (x + 1) * L + (y) \<and> (x + 1) * L + (y) < L * L" by (rule cell_range_conj)
    moreover have "(x + 1) * L + (y) = (x + 1) * L + y" by simp
    ultimately show ?thesis by simp
  qed
  have xs: "x = 0 \<or> x = L - 1 \<or> (0 < x \<and> x < L - 1)" using assms by linarith
  have ys: "y = 0 \<or> y = L - 1 \<or> (0 < y \<and> y < L - 1)" using assms by linarith
  consider (tl) "x = 0" "y = 0" | (br) "x = L - 1" "y = L - 1" | (bl) "x = L - 1" "y = 0" | (tr) "x = 0" "y = L - 1" | (it) "x = 0" "0 < y" "y < L - 1" | (ib) "x = L - 1" "0 < y" "y < L - 1" | (il) "0 < x" "x < L - 1" "y = 0" | (ir) "0 < x" "x < L - 1" "y = L - 1" | (gen) "0 < x" "x < L - 1" "0 < y" "y < L - 1"
    using xs ys assms(1) by fastforce
  then show ?thesis
  proof cases
    case tl
    have l: "hex_connect_from L x y = [x * L + y + 1, (x + 1) * L + y]"
      using tl assms(1) by (simp add: hex_connect_from_def)
    have c: "y + 1 < L" "x + 1 < L" using tl assms(1) by linarith+
    have "\<forall>e \<in> set [x * L + y + 1, (x + 1) * L + y]. 0 \<le> e \<and> e < L * L"
      using c f4 f6 by simp
    then show ?thesis using assms(6) unfolding l by blast
  next
    case br
    have l: "hex_connect_from L x y = [(x - 1) * L + y, x * L + y - 1]"
      using br assms(1) by (simp add: hex_connect_from_def)
    have c: "0 < x" "0 < y" using br assms(1) by linarith+
    have "\<forall>e \<in> set [(x - 1) * L + y, x * L + y - 1]. 0 \<le> e \<and> e < L * L"
      using c f1 f3 by simp
    then show ?thesis using assms(6) unfolding l by blast
  next
    case bl
    have l: "hex_connect_from L x y = [(x - 1) * L + y, (x - 1) * L + y + 1, x * L + y + 1]"
      using bl assms(1) by (simp add: hex_connect_from_def)
    have c: "0 < x" "y + 1 < L" using bl assms(1) by linarith+
    have "\<forall>e \<in> set [(x - 1) * L + y, (x - 1) * L + y + 1, x * L + y + 1]. 0 \<le> e \<and> e < L * L"
      using c f1 f2 f4 by simp
    then show ?thesis using assms(6) unfolding l by blast
  next
    case tr
    have l: "hex_connect_from L x y = [x * L + y - 1, (x + 1) * L + y - 1, (x + 1) * L + y]"
      using tr assms(1) by (simp add: hex_connect_from_def)
    have c: "0 < y" "x + 1 < L" using tr assms(1) by linarith+
    have "\<forall>e \<in> set [x * L + y - 1, (x + 1) * L + y - 1, (x + 1) * L + y]. 0 \<le> e \<and> e < L * L"
      using c f3 f5 f6 by simp
    then show ?thesis using assms(6) unfolding l by blast
  next
    case it
    have l: "hex_connect_from L x y = [x * L + y - 1, x * L + y + 1, (x + 1) * L + y - 1, (x + 1) * L + y]"
      using it assms(1) by (simp add: hex_connect_from_def)
    have c: "0 < y" "y + 1 < L" "x + 1 < L" using it assms(1) by linarith+
    have "\<forall>e \<in> set [x * L + y - 1, x * L + y + 1, (x + 1) * L + y - 1, (x + 1) * L + y]. 0 \<le> e \<and> e < L * L"
      using c f3 f4 f5 f6 by simp
    then show ?thesis using assms(6) unfolding l by blast
  next
    case ib
    have l: "hex_connect_from L x y = [(x - 1) * L + y, (x - 1) * L + y + 1, x * L + y - 1, x * L + y + 1]"
      using ib assms(1) by (simp add: hex_connect_from_def)
    have c: "0 < x" "y + 1 < L" "0 < y" using ib assms(1) by linarith+
    have "\<forall>e \<in> set [(x - 1) * L + y, (x - 1) * L + y + 1, x * L + y - 1, x * L + y + 1]. 0 \<le> e \<and> e < L * L"
      using c f1 f2 f3 f4 by simp
    then show ?thesis using assms(6) unfolding l by blast
  next
    case il
    have l: "hex_connect_from L x y = [(x - 1) * L + y, (x - 1) * L + y + 1, x * L + y + 1, (x + 1) * L + y]"
      using il assms(1) by (simp add: hex_connect_from_def)
    have c: "0 < x" "y + 1 < L" "x + 1 < L" using il assms(1) by linarith+
    have "\<forall>e \<in> set [(x - 1) * L + y, (x - 1) * L + y + 1, x * L + y + 1, (x + 1) * L + y]. 0 \<le> e \<and> e < L * L"
      using c f1 f2 f4 f6 by simp
    then show ?thesis using assms(6) unfolding l by blast
  next
    case ir
    have l: "hex_connect_from L x y = [(x - 1) * L + y, x * L + y - 1, (x + 1) * L + y - 1, (x + 1) * L + y]"
      using ir assms(1) by (simp add: hex_connect_from_def)
    have c: "0 < x" "0 < y" "x + 1 < L" using ir assms(1) by linarith+
    have "\<forall>e \<in> set [(x - 1) * L + y, x * L + y - 1, (x + 1) * L + y - 1, (x + 1) * L + y]. 0 \<le> e \<and> e < L * L"
      using c f1 f3 f5 f6 by simp
    then show ?thesis using assms(6) unfolding l by blast
  next
    case gen
    have l: "hex_connect_from L x y = [(x - 1) * L + y, (x - 1) * L + y + 1, x * L + y - 1, x * L + y + 1, (x + 1) * L + y - 1, (x + 1) * L + y]"
      using gen assms(1) by (simp add: hex_connect_from_def)
    have c: "0 < x" "y + 1 < L" "0 < y" "x + 1 < L" using gen assms(1) by linarith+
    have "\<forall>e \<in> set [(x - 1) * L + y, (x - 1) * L + y + 1, x * L + y - 1, x * L + y + 1, (x + 1) * L + y - 1, (x + 1) * L + y]. 0 \<le> e \<and> e < L * L"
      using c f1 f2 f3 f4 f5 f6 by simp
    then show ?thesis using assms(6) unfolding l by blast
  qed
qed

lemma square_update:
  assumes "square n M" "length r = n"
  shows "square n (M[i := r])"
proof -
  have "set (M[i := r]) \<subseteq> insert r (set M)" by (rule set_update_subset_insert)
  then show ?thesis using assms unfolding square_def by auto
qed

lemma square_nth: "square n M \<Longrightarrow> k < n \<Longrightarrow> length (M ! k) = n"
  by (simp add: square_def)

lemma square_blank: "square (nat n) (blank_matrix n)"
  by (auto simp: square_def blank_matrix_def length_indices)

lemma blank_matrix_entry: "k < nat n \<Longrightarrow> j < nat n \<Longrightarrow> blank_matrix n ! k ! j = (False, 0)"
  by (simp add: blank_matrix_row)

lemma fold_set_entry_column:
  assumes "square n M" "\<forall>a \<in> set as. 0 \<le> a \<and> a < int n" "0 \<le> c" "c < int n"
  shows "square n (foldl (\<lambda>M a. set_entry M a c p) M as)
       \<and> (\<forall>k < n. \<forall>j < n. foldl (\<lambda>M a. set_entry M a c p) M as ! k ! j
             = (if int k \<in> set as \<and> int j = c then p else M ! k ! j))"
  using assms
proof (induction as arbitrary: M)
  case Nil
  then show ?case by simp
next
  case (Cons a as)
  let ?M1 = "M[nat a := (M ! nat a)[nat c := p]]"
  have a: "0 \<le> a" "a < int n" "nat a < n" using Cons.prems(2) by auto
  have lenM: "length M = n" using Cons.prems(1) by (simp add: square_def)
  have lenr: "length (M ! nat a) = n" using Cons.prems(1) a by (simp add: square_nth)
  have one: "set_entry M a c p = ?M1"
    using a lenM lenr Cons.prems(3,4) by (simp add: set_entry_def vec_at_nth vec_put_update)
  have sq1: "square n ?M1" using Cons.prems(1) lenr by (intro square_update) auto
  have ih: "square n (foldl (\<lambda>M a. set_entry M a c p) ?M1 as)
       \<and> (\<forall>k < n. \<forall>j < n. foldl (\<lambda>M a. set_entry M a c p) ?M1 as ! k ! j
             = (if int k \<in> set as \<and> int j = c then p else ?M1 ! k ! j))"
    using sq1 Cons.prems by (intro Cons.IH) auto
  have m1: "\<forall>k < n. \<forall>j < n. ?M1 ! k ! j = (if int k = a \<and> int j = c then p else M ! k ! j)"
  proof (intro allI impI)
    fix k j assume k: "k < n" and j: "j < n"
    show "?M1 ! k ! j = (if int k = a \<and> int j = c then p else M ! k ! j)"
    proof (cases "k = nat a")
      case True
      then have "?M1 ! k = (M ! nat a)[nat c := p]" using lenM a by simp
      then show ?thesis using True a lenr j Cons.prems(3) by (auto simp: nth_list_update)
    next
      case False
      then have "int k \<noteq> a" using a by auto
      then show ?thesis using False by simp
    qed
  qed
  have "\<forall>k < n. \<forall>j < n. foldl (\<lambda>M a. set_entry M a c p) ?M1 as ! k ! j
             = (if int k \<in> set (a # as) \<and> int j = c then p else M ! k ! j)"
    using ih m1 by auto
  then show ?case using ih one by simp
qed

lemma connect_node_column:
  assumes "2 \<le> L" "gsize b = L * L" "border_length b = L" "0 \<le> c" "c < L * L"
  shows "connect_node b M c
         = foldl (\<lambda>M a. set_entry M a c (True, 1)) M (hex_connect_from L (c div L) (c mod L))"
proof -
  have "nodeIndex_to_coordinate b c = (c div L, c mod L)"
    using assms by (simp add: nodeIndex_to_coordinate_def sdiv_nonneg smod_nonneg)
  then show ?thesis using assms by (simp add: connect_node_def)
qed

lemma fold_connect_node:
  assumes "2 \<le> L" "gsize b = L * L" "border_length b = L" "square (nat (L * L)) M"
    "\<forall>c \<in> set nodes. 0 \<le> c \<and> c < L * L"
  shows "square (nat (L * L)) (foldl (connect_node b) M nodes)
       \<and> (\<forall>k < nat (L * L). \<forall>j < nat (L * L). foldl (connect_node b) M nodes ! k ! j
             = (if int j \<in> set nodes \<and> int k \<in> set (hex_connect_from L (int j div L) (int j mod L))
                then (True, 1) else M ! k ! j))"
  using assms(4,5)
proof (induction nodes arbitrary: M)
  case Nil
  then show ?case by simp
next
  case (Cons c nodes)
  let ?n = "nat (L * L)"
  let ?as = "hex_connect_from L (c div L) (c mod L)"
  let ?M1 = "foldl (\<lambda>M a. set_entry M a c (True, 1)) M ?as"
  have c: "0 \<le> c" "c < L * L" using Cons.prems(2) by auto
  have L: "0 < L" using assms(1) by simp
  have n: "int ?n = L * L" using c by simp
  note cb = cell_bounds [OF L c]
  have "\<And>a. a \<in> set ?as \<Longrightarrow> 0 \<le> a \<and> a < L * L"
    by (rule hex_connect_in_range [OF assms(1) cb(1) cb(2) cb(3) cb(4)])
  then have as: "\<forall>a \<in> set ?as. 0 \<le> a \<and> a < int ?n" unfolding n by blast
  have c': "0 \<le> c" "c < int ?n" unfolding n using c by blast+
  have col: "square ?n ?M1
       \<and> (\<forall>k < ?n. \<forall>j < ?n. ?M1 ! k ! j = (if int k \<in> set ?as \<and> int j = c then (True, 1) else M ! k ! j))"
    by (rule fold_set_entry_column [OF Cons.prems(1) as c'])
  have step: "connect_node b M c = ?M1" using connect_node_column [OF assms(1-3) c] .
  have ih: "square ?n (foldl (connect_node b) ?M1 nodes)
       \<and> (\<forall>k < ?n. \<forall>j < ?n. foldl (connect_node b) ?M1 nodes ! k ! j
             = (if int j \<in> set nodes \<and> int k \<in> set (hex_connect_from L (int j div L) (int j mod L))
                then (True, 1) else ?M1 ! k ! j))"
  proof (rule Cons.IH)
    show "square ?n ?M1" using col by simp
    show "\<forall>c \<in> set nodes. 0 \<le> c \<and> c < L * L" using Cons.prems(2) by simp
  qed
  have e: "foldl (connect_node b) M (c # nodes) = foldl (connect_node b) ?M1 nodes"
    using step by simp
  have "\<forall>k < ?n. \<forall>j < ?n. foldl (connect_node b) ?M1 nodes ! k ! j
             = (if int j \<in> set (c # nodes) \<and> int k \<in> set (hex_connect_from L (int j div L) (int j mod L))
                then (True, 1) else M ! k ! j)"
  proof (intro allI impI)
    fix k j assume k: "k < ?n" and j: "j < ?n"
    show "foldl (connect_node b) ?M1 nodes ! k ! j
             = (if int j \<in> set (c # nodes) \<and> int k \<in> set (hex_connect_from L (int j div L) (int j mod L))
                then (True, 1) else M ! k ! j)"
    proof -
      have a: "foldl (connect_node b) ?M1 nodes ! k ! j
             = (if int j \<in> set nodes \<and> int k \<in> set (hex_connect_from L (int j div L) (int j mod L))
                then (True, 1) else ?M1 ! k ! j)" using ih k j by blast
      have b: "?M1 ! k ! j = (if int k \<in> set ?as \<and> int j = c then (True, 1) else M ! k ! j)"
        using col k j by blast
      show ?thesis
      proof (cases "int j = c")
        case True
        then show ?thesis unfolding a b by simp
      next
        case False
        then show ?thesis unfolding a b by simp
      qed
    qed
  qed
  moreover have "square ?n (foldl (connect_node b) ?M1 nodes)" using ih by blast
  ultimately show ?case unfolding e by blast
qed

lemma hex_matrix_entry:
  assumes "2 \<le> L" "0 \<le> u" "u < L * L" "0 \<le> v" "v < L * L"
  shows "vec_at (vec_at (hex_matrix L) u) v
         = (if u \<in> set (hex_connect_from L (v div L) (v mod L)) then (True, 1) else (False, 0))"
    and "square (nat (L * L)) (hex_matrix L)"
proof -
  let ?n = "nat (L * L)"
  have f: "square ?n (hex_matrix L)
       \<and> (\<forall>k < ?n. \<forall>j < ?n. hex_matrix L ! k ! j
             = (if int j \<in> set (indices (L * L)) \<and> int k \<in> set (hex_connect_from L (int j div L) (int j mod L))
                then (True, 1) else blank_matrix (L * L) ! k ! j))"
    unfolding hex_matrix_def
  proof (rule fold_connect_node [OF assms(1)])
    show "gsize (blank_board L CON_MATRIX) = L * L" by (simp add: blank_board_def)
    show "border_length (blank_board L CON_MATRIX) = L" by (simp add: blank_board_def)
    show "square (nat (L * L)) (blank_matrix (L * L))" by (rule square_blank)
    show "\<forall>c \<in> set (indices (L * L)). 0 \<le> c \<and> c < L * L" by (simp add: set_indices)
  qed
  show "square ?n (hex_matrix L)" using f by simp
  have u: "nat u < ?n" and v: "nat v < ?n" using assms by auto
  have "hex_matrix L ! nat u ! nat v
       = (if v \<in> set (indices (L * L)) \<and> u \<in> set (hex_connect_from L (v div L) (v mod L))
          then (True, 1) else blank_matrix (L * L) ! nat u ! nat v)"
    using f u v assms(2,4) by simp
  moreover have "v \<in> set (indices (L * L))" using assms by (simp add: set_indices)
  moreover have "blank_matrix (L * L) ! nat u ! nat v = (False, 0)"
    using u v by (rule blank_matrix_entry)
  moreover have "vec_at (vec_at (hex_matrix L) u) v = hex_matrix L ! nat u ! nat v"
    using f u v assms by (simp add: vec_at_nth square_def)
  ultimately show "vec_at (vec_at (hex_matrix L) u) v
         = (if u \<in> set (hex_connect_from L (v div L) (v mod L)) then (True, 1) else (False, 0))"
    by simp
qed

lemma connect_node_blank_board:
  "connect_node (blank_board L repr_mode) = connect_node (blank_board L CON_MATRIX)"
  by (intro ext) (simp add: connect_node_def nodeIndex_to_coordinate_def blank_board_def)

lemma new_Hex_Board_fields:
  shows "gsize (new_Hex_Board L repr_mode) = L * L"
    and "border_length (new_Hex_Board L repr_mode) = L"
    and "connectivityMatrix (new_Hex_Board L repr_mode) = hex_matrix L"
    and "conMatrix_was_computed (new_Hex_Board L repr_mode) = True"
    and "edgeList_was_computed (new_Hex_Board L repr_mode) = (repr_mode = EDGE_LIST)"
    and "repr_mode = EDGE_LIST \<Longrightarrow> edgeList (new_Hex_Board L repr_mode)
           = map (matrix_row_edges (hex_matrix L) (L * L)) (indices (L * L))"
    and "nodeTags (new_Hex_Board L repr_mode) = map (\<lambda>i. 0) (indices (L * L))"
proof -
  have n: "new_Hex_Board L repr_mode = generate_blank_connected_board (blank_board L repr_mode)"
    by (simp add: new_Hex_Board_def blank_board_def)
  have m: "generate_graph_matrixMode (blank_board L repr_mode)
           = (blank_board L repr_mode)\<lparr>connectivityMatrix := hex_matrix L, conMatrix_was_computed := True\<rparr>"
    unfolding generate_graph_matrixMode_def hex_matrix_def connect_node_blank_board [of L repr_mode]
    by (simp add: blank_board_def)
  show "gsize (new_Hex_Board L repr_mode) = L * L"
    and "border_length (new_Hex_Board L repr_mode) = L"
    and "connectivityMatrix (new_Hex_Board L repr_mode) = hex_matrix L"
    and "conMatrix_was_computed (new_Hex_Board L repr_mode) = True"
    and "edgeList_was_computed (new_Hex_Board L repr_mode) = (repr_mode = EDGE_LIST)"
    and "repr_mode = EDGE_LIST \<Longrightarrow> edgeList (new_Hex_Board L repr_mode)
           = map (matrix_row_edges (hex_matrix L) (L * L)) (indices (L * L))"
    and "nodeTags (new_Hex_Board L repr_mode) = map (\<lambda>i. 0) (indices (L * L))"
    unfolding n generate_blank_connected_board_def generate_graph_edgeListMode_def m
              generate_edgeList_from_conMatrix_def
    by (cases repr_mode; simp add: blank_board_def)+
qed

lemma board_with_tags_fields:
  shows "gsize (board_with_tags L repr_mode tags) = L * L"
    and "V (board_with_tags L repr_mode tags) = L * L"
    and "border_length (board_with_tags L repr_mode tags) = L"
    and "connectivityMatrix (board_with_tags L repr_mode tags) = hex_matrix L"
    and "conMatrix_was_computed (board_with_tags L repr_mode tags) = True"
    and "edgeList_was_computed (board_with_tags L repr_mode tags) = (repr_mode = EDGE_LIST)"
    and "repr_mode = EDGE_LIST \<Longrightarrow> edgeList (board_with_tags L repr_mode tags)
           = map (matrix_row_edges (hex_matrix L) (L * L)) (indices (L * L))"
    and "nodeTags (board_with_tags L repr_mode tags) = tags"
  by (simp_all add: board_with_tags_def new_Hex_Board_fields V_def)

lemma neighbors_hex:
  assumes "0 \<le> u" "u < L * L"
  shows "neighbors (board_with_tags L repr_mode tags) u = matrix_row_edges (hex_matrix L) (L * L) u"
proof (cases repr_mode)
  case CON_MATRIX
  then show ?thesis by (simp add: neighbors_def board_with_tags_fields)
next
  case EDGE_LIST
  have "vec_at (map (matrix_row_edges (hex_matrix L) (L * L)) (indices (L * L))) u
        = matrix_row_edges (hex_matrix L) (L * L) u"
    using assms by (simp add: vec_at_nth length_indices nth_indices)
  then show ?thesis using EDGE_LIST by (simp add: neighbors_def board_with_tags_fields)
qed

lemma hex_row_member:
  assumes "2 \<le> L" "0 \<le> u" "u < L * L"
  shows "e \<in> set (matrix_row_edges (hex_matrix L) (L * L) u)
         \<longleftrightarrow> (0 \<le> fst e \<and> fst e < L * L \<and> snd e = 1
              \<and> u \<in> set (hex_connect_from L (fst e div L) (fst e mod L)))"
proof
  assume "e \<in> set (matrix_row_edges (hex_matrix L) (L * L) u)"
  then obtain j where j: "0 \<le> j" "j < L * L" "fst (vec_at (vec_at (hex_matrix L) u) j)"
      "e = (j, snd (vec_at (vec_at (hex_matrix L) u) j))"
    by (auto simp: matrix_row_edges_def set_indices)
  have m: "vec_at (vec_at (hex_matrix L) u) j
       = (if u \<in> set (hex_connect_from L (j div L) (j mod L)) then (True, 1) else (False, 0))"
    by (rule hex_matrix_entry(1) [OF assms j(1,2)])
  show "0 \<le> fst e \<and> fst e < L * L \<and> snd e = 1
        \<and> u \<in> set (hex_connect_from L (fst e div L) (fst e mod L))"
    using j m by (auto split: if_splits)
next
  assume a: "0 \<le> fst e \<and> fst e < L * L \<and> snd e = 1
        \<and> u \<in> set (hex_connect_from L (fst e div L) (fst e mod L))"
  have m: "vec_at (vec_at (hex_matrix L) u) (fst e) = (True, 1)"
    using hex_matrix_entry(1) [OF assms, of "fst e"] a by simp
  have "(fst e, snd (vec_at (vec_at (hex_matrix L) u) (fst e))) \<in> set (matrix_row_edges (hex_matrix L) (L * L) u)"
    using a m by (force simp: matrix_row_edges_def set_indices)
  then show "e \<in> set (matrix_row_edges (hex_matrix L) (L * L) u)" using a m by (cases e) simp
qed

lemma hex_row_distinct: "distinct (map fst (matrix_row_edges M n u))"
proof -
  have "map fst (matrix_row_edges M n u) = filter (\<lambda>j. fst (vec_at (vec_at M u) j) = True) (indices n)"
    by (simp add: matrix_row_edges_def comp_def)
  then show ?thesis by (simp add: distinct_indices)
qed

lemma hex_offset_neg: "hex_offset (- dx) (- dy) = hex_offset dx dy"
proof -
  have e: "(- dx = - 1) = (dx = 1)" "(- dx = 0) = (dx = 0)" "(- dx = 1) = (dx = - 1)"
          "(- dy = - 1) = (dy = 1)" "(- dy = 0) = (dy = 0)" "(- dy = 1) = (dy = - 1)"
    by linarith+
  show ?thesis unfolding hex_offset_def e by blast
qed

lemma hex_offset_sym: "hex_offset (a - b) (c - d) = hex_offset (b - a) (d - c)"
  using hex_offset_neg [of "b - a" "d - c"] by simp

lemma hex_connect_sym:
  assumes "2 \<le> L" "0 \<le> u" "u < L * L" "0 \<le> v" "v < L * L"
  shows "u \<in> set (hex_connect_from L (v div L) (v mod L))
         \<longleftrightarrow> v \<in> set (hex_connect_from L (u div L) (u mod L))"
proof -
  have L: "0 < L" using assms by simp
  note bu = cell_bounds [OF L assms(2,3)]
  note bv = cell_bounds [OF L assms(4,5)]
  have "u \<in> set (hex_connect_from L (v div L) (v mod L))
        \<longleftrightarrow> hex_offset (u div L - v div L) (u mod L - v mod L)"
    by (rule hex_connect_member [OF assms(1) bv(1) bv(2) bv(3) bv(4) assms(2,3)])
  moreover have "v \<in> set (hex_connect_from L (u div L) (u mod L))
        \<longleftrightarrow> hex_offset (v div L - u div L) (v mod L - u mod L)"
    by (rule hex_connect_member [OF assms(1) bu(1) bu(2) bu(3) bu(4) assms(4,5)])
  ultimately show ?thesis using hex_offset_sym by blast
qed

lemma adjacent_hex:
  assumes "2 \<le> L" "0 \<le> u" "u < L * L" "0 \<le> v" "v < L * L"
  shows "adjacent (board_with_tags L repr_mode tags) u v
         \<longleftrightarrow> u \<in> set (hex_connect_from L (v div L) (v mod L))"
proof (cases repr_mode)
  case CON_MATRIX
  then show ?thesis
    using hex_matrix_entry(1) [OF assms]
    by (simp add: adjacent_def board_with_tags_fields)
next
  case EDGE_LIST
  have "adjacent (board_with_tags L repr_mode tags) u v
        = list_ex (\<lambda>e. fst e = v) (neighbors (board_with_tags L repr_mode tags) u)"
    using EDGE_LIST by (simp add: adjacent_def neighbors_def board_with_tags_fields)
  also have "\<dots> = (\<exists>e \<in> set (matrix_row_edges (hex_matrix L) (L * L) u). fst e = v)"
    unfolding neighbors_hex [OF assms(2,3)] by (simp add: list_ex_iff)
  also have "\<dots> = (u \<in> set (hex_connect_from L (v div L) (v mod L)))"
  proof
    assume "\<exists>e \<in> set (matrix_row_edges (hex_matrix L) (L * L) u). fst e = v"
    then obtain e where "e \<in> set (matrix_row_edges (hex_matrix L) (L * L) u)" "fst e = v" by blast
    then show "u \<in> set (hex_connect_from L (v div L) (v mod L))"
      using hex_row_member [OF assms(1-3), of e] by simp
  next
    assume "u \<in> set (hex_connect_from L (v div L) (v mod L))"
    then have "(v, 1) \<in> set (matrix_row_edges (hex_matrix L) (L * L) u)"
      using hex_row_member [OF assms(1-3), of "(v, 1)"] assms(4,5) by simp
    then show "\<exists>e \<in> set (matrix_row_edges (hex_matrix L) (L * L) u). fst e = v" by force
  qed
  finally show ?thesis .
qed

lemma get_edge_value_hex:
  assumes "2 \<le> L" "0 \<le> u" "u < L * L" "0 \<le> v" "v < L * L"
  shows "get_edge_value (board_with_tags L repr_mode tags) u v
         = (if adjacent (board_with_tags L repr_mode tags) u v then 1 else 0)"
proof (cases repr_mode)
  case CON_MATRIX
  then show ?thesis
    using hex_matrix_entry(1) [OF assms]
    by (simp add: adjacent_def get_edge_value_def board_with_tags_fields)
next
  case EDGE_LIST
  let ?row = "matrix_row_edges (hex_matrix L) (L * L) u"
  have g: "get_edge_value (board_with_tags L repr_mode tags) u v
        = (case map_of ?row v of None \<Rightarrow> 0 | Some c \<Rightarrow> c)"
    using EDGE_LIST neighbors_hex [OF assms(2,3), of repr_mode tags]
    by (simp add: get_edge_value_def neighbors_def board_with_tags_fields edge_scan_map_of)
  have a: "adjacent (board_with_tags L repr_mode tags) u v
        \<longleftrightarrow> u \<in> set (hex_connect_from L (v div L) (v mod L))"
    by (rule adjacent_hex [OF assms])
  show ?thesis
  proof (cases "u \<in> set (hex_connect_from L (v div L) (v mod L))")
    case True
    then have "(v, 1) \<in> set ?row" using hex_row_member [OF assms(1-3), of "(v, 1)"] assms(4,5) by simp
    then have "map_of ?row v = Some 1" using hex_row_distinct by simp
    then show ?thesis using g a True by simp
  next
    case False
    then have "v \<notin> fst ` set ?row" using hex_row_member [OF assms(1-3)] by auto
    then have "map_of ?row v = None" by (simp add: map_of_eq_None_iff)
    then show ?thesis using g a False by simp
  qed
qed

lemma fold_set_node_tag:
  "\<exists>tags. foldl (\<lambda>b m. set_node_tag b (fst m) (snd m)) b moves = b\<lparr>nodeTags := tags\<rparr>"
proof (induction moves arbitrary: b)
  case Nil
  have "b = b\<lparr>nodeTags := nodeTags b\<rparr>" by simp
  then show ?case by (metis foldl_Nil)
next
  case (Cons m moves)
  obtain t where t: "set_node_tag b (fst m) (snd m) = b\<lparr>nodeTags := t\<rparr>"
    by (simp add: set_node_tag_def Let_def)
  obtain tags where "foldl (\<lambda>b m. set_node_tag b (fst m) (snd m)) (b\<lparr>nodeTags := t\<rparr>) moves
       = b\<lparr>nodeTags := t\<rparr>\<lparr>nodeTags := tags\<rparr>" using Cons.IH by blast
  then show ?case using t by (simp del: foldl_Cons add: foldl_Cons [of _ b m moves]) blast
qed

text \<open>
  C7.  On a freshly constructed board of border length at least 2, in either
  representation, adjacency and edge cost are symmetric, every existing edge costs 1,
  and no sequence of \<open>set_node_tag\<close> calls changes either answer.
\<close>

theorem hex_board_symmetric:
  assumes "2 \<le> L" "0 \<le> u" "u < L * L" "0 \<le> v" "v < L * L"
  shows "adjacent (new_Hex_Board L repr_mode) u v = adjacent (new_Hex_Board L repr_mode) v u
       \<and> get_edge_value (new_Hex_Board L repr_mode) u v = get_edge_value (new_Hex_Board L repr_mode) v u
       \<and> (adjacent (new_Hex_Board L repr_mode) u v \<longrightarrow> get_edge_value (new_Hex_Board L repr_mode) u v = 1)
       \<and> adjacent (foldl (\<lambda>b m. set_node_tag b (fst m) (snd m)) (new_Hex_Board L repr_mode) moves) u v
           = adjacent (new_Hex_Board L repr_mode) u v
       \<and> get_edge_value (foldl (\<lambda>b m. set_node_tag b (fst m) (snd m)) (new_Hex_Board L repr_mode) moves) u v
           = get_edge_value (new_Hex_Board L repr_mode) u v"
proof -
  let ?b = "new_Hex_Board L repr_mode"
  have b: "?b = board_with_tags L repr_mode (nodeTags ?b)" by (simp add: board_with_tags_def)
  obtain tags where "foldl (\<lambda>b m. set_node_tag b (fst m) (snd m)) ?b moves = ?b\<lparr>nodeTags := tags\<rparr>"
    using fold_set_node_tag by blast
  then have b': "foldl (\<lambda>b m. set_node_tag b (fst m) (snd m)) ?b moves = board_with_tags L repr_mode tags"
    by (simp add: board_with_tags_def)
  have s: "u \<in> set (hex_connect_from L (v div L) (v mod L))
         \<longleftrightarrow> v \<in> set (hex_connect_from L (u div L) (u mod L))"
    by (rule hex_connect_sym [OF assms])
  have auv: "\<And>t. adjacent (board_with_tags L repr_mode t) u v
         \<longleftrightarrow> u \<in> set (hex_connect_from L (v div L) (v mod L))"
    by (rule adjacent_hex [OF assms])
  have avu: "\<And>t. adjacent (board_with_tags L repr_mode t) v u
         \<longleftrightarrow> v \<in> set (hex_connect_from L (u div L) (u mod L))"
    by (rule adjacent_hex [OF assms(1) assms(4,5) assms(2,3)])
  have guv: "\<And>t. get_edge_value (board_with_tags L repr_mode t) u v
         = (if adjacent (board_with_tags L repr_mode t) u v then 1 else 0)"
    by (rule get_edge_value_hex [OF assms])
  have gvu: "\<And>t. get_edge_value (board_with_tags L repr_mode t) v u
         = (if adjacent (board_with_tags L repr_mode t) v u then 1 else 0)"
    by (rule get_edge_value_hex [OF assms(1) assms(4,5) assms(2,3)])
  show ?thesis
    unfolding b' 
    using auv [of "nodeTags ?b"] avu [of "nodeTags ?b"] guv [of "nodeTags ?b"] gvu [of "nodeTags ?b"]
          auv [of tags] guv [of tags] s
    unfolding b [symmetric]
    by simp
qed

theorem hex_board_symmetric_witness:
  "(2::int) \<le> 3 \<and> adjacent (new_Hex_Board 3 CON_MATRIX) 1 3 \<and> adjacent (new_Hex_Board 3 CON_MATRIX) 3 1
   \<and> get_edge_value (new_Hex_Board 3 CON_MATRIX) 3 1 = 1
   \<and> adjacent (foldl (\<lambda>b m. set_node_tag b (fst m) (snd m)) (new_Hex_Board 3 CON_MATRIX) [(4, 1), (3, 2)]) 1 3"
proof -
  have a: "adjacent (new_Hex_Board 3 CON_MATRIX) 1 3" by code_simp
  from hex_board_symmetric [of 3 1 3 CON_MATRIX "[(4, 1), (3, 2)]"] a
  show ?thesis by simp
qed
section \<open>The bot's choice among the win ratios (C9)\<close>

lemma scan_ratios_split:
  "\<exists>pre post. best # ps = pre @ scan_ratios ps best # post
     \<and> (\<forall>e \<in> set pre. snd e < snd (scan_ratios ps best))
     \<and> (\<forall>e \<in> set post. snd e \<le> snd (scan_ratios ps best))"
proof (induction ps arbitrary: best)
  case Nil
  have "best # [] = [] @ scan_ratios [] best # []" by simp
  then show ?case by fastforce
next
  case (Cons p ps)
  show ?case
  proof (cases "snd p > snd best")
    case True
    let ?r = "scan_ratios ps (fst p, snd p)"
    from Cons.IH [of "(fst p, snd p)"] obtain pre post where
      a: "(fst p, snd p) # ps = pre @ ?r # post" "\<forall>e \<in> set pre. snd e < snd ?r"
         "\<forall>e \<in> set post. snd e \<le> snd ?r" by blast
    have "p \<in> set (pre @ ?r # post)" using a(1) by (metis list.set_intros(1) prod.collapse)
    then have "snd p \<le> snd ?r" using a(2,3) by auto
    then have "snd best < snd ?r" using True by simp
    then have "best # p # ps = (best # pre) @ ?r # post \<and> (\<forall>e \<in> set (best # pre). snd e < snd ?r)"
      using a by simp
    then show ?thesis using True a(3) by (metis scan_ratios.simps(2))
  next
    case False
    let ?r = "scan_ratios ps best"
    from Cons.IH [of best] obtain pre post where
      a: "best # ps = pre @ ?r # post" "\<forall>e \<in> set pre. snd e < snd ?r"
         "\<forall>e \<in> set post. snd e \<le> snd ?r" by blast
    have r: "scan_ratios (p # ps) best = ?r" using False by simp
    show ?thesis
    proof (cases pre)
      case Nil
      have e1: "best = ?r" using a(1) Nil by (metis append_Nil list.inject)
      have e2: "ps = post" using a(1) Nil by (metis append_Nil list.inject)
      have "snd p \<le> snd ?r" using False e1 by simp
      then have "best # p # ps = [] @ ?r # (p # post) \<and> (\<forall>e \<in> set (p # post). snd e \<le> snd ?r)"
        using a(3) e1 e2 by auto
      then show ?thesis unfolding r by (metis empty_iff empty_set)
    next
      case (Cons c pre')
      have c1: "c = best" using a(1) Cons by (metis append_Cons list.inject)
      have c2: "ps = pre' @ ?r # post" using a(1) Cons by (metis append_Cons list.inject)
      note c = c1 c2
      have "snd best < snd ?r" using a(2) Cons c1 by simp
      then have "best # p # ps = (best # p # pre') @ ?r # post
                 \<and> (\<forall>e \<in> set (best # p # pre'). snd e < snd ?r)"
        using c a(2) Cons False by auto
      then show ?thesis unfolding r using a(3) by blast
    qed
  qed
qed

text \<open>
  C9.  The ordinary candidates split around the chosen one: every earlier candidate
  has a strictly smaller ratio and every later one a smaller or equal ratio, so the
  choice is the first candidate of maximal ratio.  The swap is taken exactly when the
  swap rule is on and the swap ratio is strictly greater than that maximum.
\<close>

theorem bot_choice_first_maximum:
  assumes "nodes_and_ratios \<noteq> []"
  shows "\<exists>pre best post.
           nodes_and_ratios = pre @ best # post
           \<and> (\<forall>e \<in> set pre. snd e < snd best)
           \<and> (\<forall>e \<in> set post. snd e \<le> snd best)
           \<and> choose_bot_move nodes_and_ratios swap ratio_swap player1_first_move =
               (if swap \<and> ratio_swap > snd best then (player1_first_move, ratio_swap, True)
                else (fst best, snd best, False))"
proof -
  obtain p ps where nr: "nodes_and_ratios = p # ps" using assms by (cases nodes_and_ratios) auto
  define start where "start = (fst (nodes_and_ratios ! 0), snd (nodes_and_ratios ! 0))"
  define best where "best = (if length nodes_and_ratios > 1 then scan_ratios (tl nodes_and_ratios) start else start)"
  have start: "start = p" using nr by (simp add: start_def)
  have best: "best = scan_ratios ps p"
  proof (cases ps)
    case Nil
    then show ?thesis using nr start by (simp add: best_def)
  next
    case (Cons a list)
    then show ?thesis using nr start by (simp add: best_def)
  qed
  obtain pre post where a: "p # ps = pre @ best # post" "\<forall>e \<in> set pre. snd e < snd best"
      "\<forall>e \<in> set post. snd e \<le> snd best"
    using scan_ratios_split [of p ps] unfolding best by blast
  have "choose_bot_move nodes_and_ratios swap ratio_swap player1_first_move =
               (if swap \<and> ratio_swap > snd best then (player1_first_move, ratio_swap, True)
                else (fst best, snd best, False))"
    unfolding choose_bot_move_def Let_def best_def start_def by simp
  then show ?thesis using a nr by blast
qed

theorem bot_choice_witness:
  "[(3, 1 / 2), (4, 7 / 10), (6, 7 / 10)] \<noteq> ([] :: (int \<times> real) list)
   \<and> choose_bot_move [(3, 1 / 2), (4, 7 / 10), (6, 7 / 10)] True (7 / 10) 2 = (4, 7 / 10, False)"
proof -
  have h: "[(3, 1 / 2), (4, 7 / 10), (6, 7 / 10)] \<noteq> ([] :: (int \<times> real) list)" by simp
  from bot_choice_first_maximum [OF h, of True "7 / 10" 2]
  obtain pre best post where a: "[(3, 1 / 2), (4, 7 / 10), (6, 7 / 10)] = pre @ best # post"
    "choose_bot_move [(3, 1 / 2), (4, 7 / 10), (6, 7 / 10)] True (7 / 10) 2 =
               (if True \<and> 7 / 10 > snd best then (2, 7 / 10, True)
                else (fst best, snd best, False))" by blast
  have "choose_bot_move [(3, 1 / 2), (4, 7 / 10), (6, 7 / 10)] True (7 / 10) 2 = (4, 7 / 10, False)"
    by (simp add: choose_bot_move_def)
  then show ?thesis using h by blast
qed
section \<open>The queue operations on the queues of a search\<close>

lemma list_ex_eq_mem: "list_ex (\<lambda>r. r = e) xs = (e \<in> set xs)"
  by (auto simp: list_ex_iff)

lemma ref_scan_disjoint: "ref_scan q r = (set q \<inter> set r = {})"
  by (induction q) (auto simp: list_ex_eq_mem)

lemma theres_any_disjoint: "theres_any_in_queue_not_in_ref q r = (set q \<inter> set r = {})"
  by (auto simp: theres_any_in_queue_not_in_ref_def ref_scan_disjoint)

lemma vec_at_hd: "q \<noteq> [] \<Longrightarrow> vec_at q 0 = hd q"
  by (cases q) (simp_all add: vec_at_def)

lemma get_first_hd:
  assumes "q \<noteq> []" "set q \<inter> set r = {}"
  shows "get_first_in_queue_not_in_ref_NotDelete q r = hd q"
proof (cases q)
  case Nil
  then show ?thesis using assms by simp
next
  case (Cons e es)
  then have "e \<notin> set r" using assms(2) by auto
  then show ?thesis using Cons vec_at_hd [OF assms(1)]
    by (simp add: get_first_in_queue_not_in_ref_NotDelete_def list_ex_eq_mem)
qed

lemma getAndDelete_hd:
  assumes "q \<noteq> []" "set q \<inter> set r = {}"
  shows "getAndDelete_first_in_queue_not_in_ref q r = (hd q, tl q)"
proof (cases q)
  case Nil
  then show ?thesis using assms by simp
next
  case (Cons e es)
  then have "e \<notin> set r" using assms(2) by auto
  then show ?thesis using Cons vec_at_hd [OF assms(1)]
    by (simp add: getAndDelete_first_in_queue_not_in_ref_def list_ex_eq_mem)
qed

lemma erase_first_absent:
  "v \<notin> (\<lambda>e. triad_value2 e) ` set q \<Longrightarrow> erase_first_val2 q v = q"
  by (induction q) auto

lemma erase_first_filter:
  "distinct (map (\<lambda>e. triad_value2 e) q)
   \<Longrightarrow> erase_first_val2 q v = filter (\<lambda>e. triad_value2 e \<noteq> v) q"
proof (induction q)
  case Nil
  then show ?case by simp
next
  case (Cons e q)
  show ?case
  proof (cases "triad_value2 e = v")
    case True
    then have "v \<notin> (\<lambda>e. triad_value2 e) ` set q" using Cons.prems by auto
    then have "filter (\<lambda>e. triad_value2 e \<noteq> v) q = q" by (auto simp: filter_id_conv)
    then show ?thesis using True by simp
  next
    case False
    then show ?thesis using Cons by simp
  qed
qed

lemma erase_passes_absent:
  "v \<notin> (\<lambda>e. triad_value2 e) ` set q \<Longrightarrow> erase_passes i q v = q"
proof (induction i q v rule: erase_passes.induct)
  case (1 i q v)
  have e: "erase_first_val2 q v = q" using "1.prems" by (rule erase_first_absent)
  show ?case
  proof (cases "i < length q")
    case True
    then have "erase_passes i q v = erase_passes (Suc i) q v"
      using e by (simp add: erase_passes.simps [of i q v])
    moreover have "erase_passes (Suc i) q v = q" using "1.IH" [OF True] "1.prems" e by simp
    ultimately show ?thesis by simp
  next
    case False
    then show ?thesis by (simp add: erase_passes.simps [of i q v])
  qed
qed

lemma erase_passes_distinct:
  assumes "distinct (map (\<lambda>e. triad_value2 e) q)"
  shows "erase_passes 0 q v = filter (\<lambda>e. triad_value2 e \<noteq> v) q"
proof (cases "q = []")
  case True
  then show ?thesis by (simp add: erase_passes.simps [of 0 "[]" v])
next
  case False
  let ?q' = "filter (\<lambda>e. triad_value2 e \<noteq> v) q"
  have "erase_passes 0 q v = erase_passes (Suc 0) (erase_first_val2 q v) v"
    using False by (simp add: erase_passes.simps [of 0 q v])
  also have "\<dots> = erase_passes (Suc 0) ?q' v" using erase_first_filter [OF assms] by simp
  also have "\<dots> = ?q'" by (rule erase_passes_absent) auto
  finally show ?thesis .
qed

lemma pq_insert_split:
  "\<exists>pre post. q = pre @ post \<and> pq_insert q x = pre @ x # post"
  using insert_scan_split [of q x] unfolding pq_insert_scan by blast

lemma set_pq_insert: "set (pq_insert q x) = insert x (set q)"
proof -
  obtain pre post where "q = pre @ post" "pq_insert q x = pre @ x # post"
    using pq_insert_split by blast
  then show ?thesis by auto
qed

lemma distinct_pq_insert:
  assumes "distinct (map (\<lambda>e. triad_value2 e) q)" "triad_value2 x \<notin> (\<lambda>e. triad_value2 e) ` set q"
  shows "distinct (map (\<lambda>e. triad_value2 e) (pq_insert q x))"
proof -
  obtain pre post where p: "q = pre @ post" "pq_insert q x = pre @ x # post"
    using pq_insert_split by blast
  have "distinct (map (\<lambda>e. triad_value2 e) (pre @ x # post))"
    using assms unfolding p(1) by auto
  then show ?thesis using p(2) by simp
qed

lemma update_queue_set:
  assumes "distinct (map (\<lambda>e. triad_value2 e) q)"
  shows "set (update_queue_with_shorter_path q x)
           = insert x {e \<in> set q. triad_value2 e \<noteq> triad_value2 x}"
    and "distinct (map (\<lambda>e. triad_value2 e) (update_queue_with_shorter_path q x))"
proof -
  let ?q' = "filter (\<lambda>e. triad_value2 e \<noteq> triad_value2 x) q"
  have u: "update_queue_with_shorter_path q x = pq_insert ?q' x"
    by (simp add: update_queue_with_shorter_path_def erase_passes_distinct [OF assms])
  show "set (update_queue_with_shorter_path q x)
           = insert x {e \<in> set q. triad_value2 e \<noteq> triad_value2 x}"
    unfolding u set_pq_insert by auto
  have "distinct (map (\<lambda>e. triad_value2 e) ?q')" using assms by (simp add: distinct_map_filter)
  moreover have "triad_value2 x \<notin> (\<lambda>e. triad_value2 e) ` set ?q'" by auto
  ultimately show "distinct (map (\<lambda>e. triad_value2 e) (update_queue_with_shorter_path q x))"
    unfolding u by (rule distinct_pq_insert)
qed
section \<open>The neighbour loop of \<open>seek_path\<close>\<close>

lemma i_is_in_vector_mem: "i_is_in_vector i v = (i \<in> set v)"
  by (auto simp: i_is_in_vector_def list_ex_iff)

lemma relax_neighbor_queue:
  "relax_neighbor banned sp nb =
     sp\<lparr>queue := relax_queue banned (open_set sp) (tentative_costs sp) (currentNode sp) (queue sp) nb\<rparr>"
  by (simp add: relax_neighbor_def relax_queue_def join_current_and_neighbor_and_cost_def Let_def)

lemma fold_relax_neighbor:
  "foldl (relax_neighbor banned) sp nbs =
     sp\<lparr>queue := foldl (relax_queue banned (open_set sp) (tentative_costs sp) (currentNode sp)) (queue sp) nbs\<rparr>"
proof (induction nbs arbitrary: sp)
  case Nil
  then show ?case by simp
next
  case (Cons nb nbs)
  let ?sp1 = "relax_neighbor banned sp nb"
  have f: "open_set ?sp1 = open_set sp" "tentative_costs ?sp1 = tentative_costs sp"
    "currentNode ?sp1 = currentNode sp"
    "queue ?sp1 = relax_queue banned (open_set sp) (tentative_costs sp) (currentNode sp) (queue sp) nb"
    by (simp_all add: relax_neighbor_queue)
  have "foldl (relax_neighbor banned) sp (nb # nbs) = foldl (relax_neighbor banned) ?sp1 nbs" by simp
  also have "\<dots> = ?sp1\<lparr>queue := foldl (relax_queue banned (open_set ?sp1) (tentative_costs ?sp1) (currentNode ?sp1)) (queue ?sp1) nbs\<rparr>"
    by (rule Cons.IH)
  also have "\<dots> = sp\<lparr>queue := foldl (relax_queue banned (open_set sp) (tentative_costs sp) (currentNode sp)) (queue sp) (nb # nbs)\<rparr>"
    unfolding f by (simp add: relax_neighbor_queue)
  finally show ?case .
qed

lemma relax_queue_step:
  assumes "distinct (map (\<lambda>e. triad_value2 e) q)"
  shows "distinct (map (\<lambda>e. triad_value2 e) (relax_queue banned opn costs cur q nb))"
    and "\<forall>e \<in> set (relax_queue banned opn costs cur q nb).
           e \<in> set q \<or> (fst e = cur \<and> triad_value2 e = fst nb
                           \<and> fst nb \<in> set opn \<and> fst nb \<notin> set banned)"
    and "(\<lambda>e. triad_value2 e) ` set q \<subseteq> (\<lambda>e. triad_value2 e) ` set (relax_queue banned opn costs cur q nb)"
    and "fst nb \<in> set opn \<Longrightarrow> fst nb \<notin> set banned
         \<Longrightarrow> fst nb \<in> (\<lambda>e. triad_value2 e) ` set (relax_queue banned opn costs cur q nb)"
proof -
  let ?x = "(cur, fst nb, snd nb + vec_at costs cur)"
  let ?q' = "relax_queue banned opn costs cur q nb"
  have "distinct (map (\<lambda>e. triad_value2 e) ?q')
       \<and> (\<forall>e \<in> set ?q'. e \<in> set q \<or> (fst e = cur \<and> triad_value2 e = fst nb
                           \<and> fst nb \<in> set opn \<and> fst nb \<notin> set banned))
       \<and> (\<lambda>e. triad_value2 e) ` set q \<subseteq> (\<lambda>e. triad_value2 e) ` set ?q'
       \<and> (fst nb \<in> set opn \<longrightarrow> fst nb \<notin> set banned \<longrightarrow> fst nb \<in> (\<lambda>e. triad_value2 e) ` set ?q')"
  proof (cases "fst nb \<in> set opn \<and> fst nb \<notin> set banned")
    case False
    then have "?q' = q" by (auto simp: relax_queue_def i_is_in_vector_mem)
    then show ?thesis using assms False by auto
  next
    case open_nb: True
    show ?thesis
    proof (cases "contains_elem_with_val1_val2 q cur (fst nb) = False \<and> improves_cost_of_node q ?x")
      case False
      then have k: "?q' = q" using open_nb by (auto simp: relax_queue_def i_is_in_vector_mem)
      have "\<exists>e \<in> set q. triad_value2 e = fst nb"
        using False by (auto simp: contains_elem_with_val1_val2_def improves_cost_of_node_def list_ex_iff)
      then have "fst nb \<in> (\<lambda>e. triad_value2 e) ` set q" by force
      then show ?thesis unfolding k using assms by auto
    next
      case True
    then have upd: "fst nb \<in> set opn" "fst nb \<notin> set banned" "?q' = update_queue_with_shorter_path q ?x"
      using open_nb by (auto simp: relax_queue_def i_is_in_vector_mem)
    have s: "set ?q' = insert ?x {e \<in> set q. triad_value2 e \<noteq> fst nb}"
      unfolding upd(3) using update_queue_set(1) [OF assms, of ?x] by simp
    have d: "distinct (map (\<lambda>e. triad_value2 e) ?q')"
      unfolding upd(3) by (rule update_queue_set(2) [OF assms])
    have sub: "(\<lambda>e. triad_value2 e) ` set q \<subseteq> (\<lambda>e. triad_value2 e) ` set ?q'"
    proof
      fix w assume "w \<in> (\<lambda>e. triad_value2 e) ` set q"
      then obtain e where e: "e \<in> set q" "w = triad_value2 e" by blast
      show "w \<in> (\<lambda>e. triad_value2 e) ` set ?q'"
      proof (cases "w = fst nb")
        case True
        have "?x \<in> set ?q'" unfolding s by simp
        then have "triad_value2 ?x \<in> (\<lambda>e. triad_value2 e) ` set ?q'" by (rule imageI)
        then show ?thesis using True by simp
      next
        case False
        then have "e \<in> set ?q'" unfolding s using e by simp
        then show ?thesis using e(2) by blast
      qed
    qed
    have "?x \<in> set ?q'" unfolding s by simp
    then have "triad_value2 ?x \<in> (\<lambda>e. triad_value2 e) ` set ?q'" by (rule imageI)
    then have mem: "fst nb \<in> (\<lambda>e. triad_value2 e) ` set ?q'" by simp
    have "\<forall>e \<in> set ?q'. e \<in> set q \<or> (fst e = cur \<and> triad_value2 e = fst nb
                           \<and> fst nb \<in> set opn \<and> fst nb \<notin> set banned)"
      unfolding s using upd(1,2) by auto
    then show ?thesis using d sub mem by blast
    qed
  qed
  then show "distinct (map (\<lambda>e. triad_value2 e) ?q')"
    and "\<forall>e \<in> set ?q'. e \<in> set q \<or> (fst e = cur \<and> triad_value2 e = fst nb
                           \<and> fst nb \<in> set opn \<and> fst nb \<notin> set banned)"
    and "(\<lambda>e. triad_value2 e) ` set q \<subseteq> (\<lambda>e. triad_value2 e) ` set ?q'"
    and "fst nb \<in> set opn \<Longrightarrow> fst nb \<notin> set banned
         \<Longrightarrow> fst nb \<in> (\<lambda>e. triad_value2 e) ` set ?q'"
    by blast+
qed

lemma fold_relax_queue:
  assumes "distinct (map (\<lambda>e. triad_value2 e) q)"
  shows "distinct (map (\<lambda>e. triad_value2 e) (foldl (relax_queue banned opn costs cur) q nbs))
       \<and> (\<forall>e \<in> set (foldl (relax_queue banned opn costs cur) q nbs).
             e \<in> set q \<or> (fst e = cur \<and> triad_value2 e \<in> fst ` set nbs
                             \<and> triad_value2 e \<in> set opn \<and> triad_value2 e \<notin> set banned))
       \<and> (\<lambda>e. triad_value2 e) ` set q
             \<subseteq> (\<lambda>e. triad_value2 e) ` set (foldl (relax_queue banned opn costs cur) q nbs)
       \<and> (\<forall>nb \<in> set nbs. fst nb \<in> set opn \<longrightarrow> fst nb \<notin> set banned
             \<longrightarrow> fst nb \<in> (\<lambda>e. triad_value2 e) ` set (foldl (relax_queue banned opn costs cur) q nbs))"
  using assms
proof (induction nbs arbitrary: q)
  case Nil
  then show ?case by simp
next
  case (Cons nb nbs)
  let ?q1 = "relax_queue banned opn costs cur q nb"
  let ?q2 = "foldl (relax_queue banned opn costs cur) ?q1 nbs"
  note r = relax_queue_step [OF Cons.prems, where banned = banned and opn = opn and costs = costs and cur = cur and nb = nb]
  have ih: "distinct (map (\<lambda>e. triad_value2 e) ?q2)
       \<and> (\<forall>e \<in> set ?q2. e \<in> set ?q1 \<or> (fst e = cur \<and> triad_value2 e \<in> fst ` set nbs
                             \<and> triad_value2 e \<in> set opn \<and> triad_value2 e \<notin> set banned))
       \<and> (\<lambda>e. triad_value2 e) ` set ?q1 \<subseteq> (\<lambda>e. triad_value2 e) ` set ?q2
       \<and> (\<forall>nb \<in> set nbs. fst nb \<in> set opn \<longrightarrow> fst nb \<notin> set banned
             \<longrightarrow> fst nb \<in> (\<lambda>e. triad_value2 e) ` set ?q2)"
    by (rule Cons.IH [OF r(1)])
  note ih1 = ih [THEN conjunct1]
  note ih2 = ih [THEN conjunct2, THEN conjunct1]
  note ih3 = ih [THEN conjunct2, THEN conjunct2, THEN conjunct1]
  note ih4 = ih [THEN conjunct2, THEN conjunct2, THEN conjunct2]
  have f: "foldl (relax_queue banned opn costs cur) q (nb # nbs) = ?q2" by simp
  have a: "\<forall>e \<in> set ?q2. e \<in> set q \<or> (fst e = cur \<and> triad_value2 e \<in> fst ` set (nb # nbs)
                             \<and> triad_value2 e \<in> set opn \<and> triad_value2 e \<notin> set banned)"
  proof
    fix e assume "e \<in> set ?q2"
    then consider "e \<in> set ?q1" | "fst e = cur \<and> triad_value2 e \<in> fst ` set nbs
                             \<and> triad_value2 e \<in> set opn \<and> triad_value2 e \<notin> set banned"
      using ih2 by blast
    then show "e \<in> set q \<or> (fst e = cur \<and> triad_value2 e \<in> fst ` set (nb # nbs)
                             \<and> triad_value2 e \<in> set opn \<and> triad_value2 e \<notin> set banned)"
    proof cases
      case 1
      then show ?thesis using r(2) by auto
    next
      case 2
      then show ?thesis by auto
    qed
  qed
  have b: "(\<lambda>e. triad_value2 e) ` set q \<subseteq> (\<lambda>e. triad_value2 e) ` set ?q2"
    using r(3) ih3 by (rule subset_trans)
  have c: "\<forall>nb' \<in> set (nb # nbs). fst nb' \<in> set opn \<longrightarrow> fst nb' \<notin> set banned
             \<longrightarrow> fst nb' \<in> (\<lambda>e. triad_value2 e) ` set ?q2"
  proof (intro ballI impI)
    fix nb' assume n: "nb' \<in> set (nb # nbs)" "fst nb' \<in> set opn" "fst nb' \<notin> set banned"
    show "fst nb' \<in> (\<lambda>e. triad_value2 e) ` set ?q2"
    proof (cases "nb' = nb")
      case True
      then have "fst nb' \<in> (\<lambda>e. triad_value2 e) ` set ?q1" using r(4) n by simp
      then show ?thesis using ih3 by blast
    next
      case False
      then have "nb' \<in> set nbs" using n(1) by simp
      then show ?thesis using ih4 n by blast
    qed
  qed
  show ?case unfolding f by (intro conjI ih1 a b c)
qed
section \<open>One iteration of the search loop\<close>

lemma seek_iteration_empty:
  assumes "relaxed_queue banned sp = []"
  shows "terminated (seek_iteration banned sp) = True"
    and "path_exists (seek_iteration banned sp) = nodeTo_was_visited sp"
    and "graph (seek_iteration banned sp) = graph sp"
    and "nodeFrom (seek_iteration banned sp) = nodeFrom sp"
    and "nodeTo (seek_iteration banned sp) = nodeTo sp"
    and "used_queue_elements (seek_iteration banned sp) = used_queue_elements sp"
  using assms
  by (simp_all add: seek_iteration_def Let_def fold_relax_neighbor relaxed_queue_def)

lemma seek_iteration_pop:
  assumes "relaxed_queue banned sp \<noteq> []"
    "set (relaxed_queue banned sp) \<inter> set (used_queue_elements sp) = {}"
    "triad_value2 (hd (relaxed_queue banned sp)) \<noteq> nodeTo sp"
    "triad_value2 (hd (relaxed_queue banned sp)) \<in> set (open_set sp)"
  shows "terminated (seek_iteration banned sp) = terminated sp"
    and "nodeTo_was_visited (seek_iteration banned sp) = nodeTo_was_visited sp"
    and "graph (seek_iteration banned sp) = graph sp"
    and "nodeFrom (seek_iteration banned sp) = nodeFrom sp"
    and "nodeTo (seek_iteration banned sp) = nodeTo sp"
    and "used_queue_elements (seek_iteration banned sp)
           = used_queue_elements sp @ [hd (relaxed_queue banned sp)]"
    and "queue (seek_iteration banned sp) = tl (relaxed_queue banned sp)"
    and "currentNode (seek_iteration banned sp) = triad_value2 (hd (relaxed_queue banned sp))"
    and "open_set (seek_iteration banned sp)
           = remove1 (triad_value2 (hd (relaxed_queue banned sp))) (open_set sp)"
  using assms
  by (simp_all add: seek_iteration_def Let_def fold_relax_neighbor relaxed_queue_def
        theres_any_disjoint get_first_hd getAndDelete_hd close_current_def)

lemma seek_iteration_target:
  assumes "relaxed_queue banned sp \<noteq> []"
    "set (relaxed_queue banned sp) \<inter> set (used_queue_elements sp) = {}"
    "triad_value2 (hd (relaxed_queue banned sp)) = nodeTo sp"
  shows "terminated (seek_iteration banned sp) = True"
    and "path_exists (seek_iteration banned sp) = True"
    and "graph (seek_iteration banned sp) = graph sp"
    and "nodeFrom (seek_iteration banned sp) = nodeFrom sp"
    and "nodeTo (seek_iteration banned sp) = nodeTo sp"
    and "used_queue_elements (seek_iteration banned sp)
           = used_queue_elements sp @ [hd (relaxed_queue banned sp)]"
proof -
  let ?q = "relaxed_queue banned sp"
  have "hd ?q \<in> set ?q" using assms(1) by simp
  then have n: "set ?q \<inter> set (used_queue_elements sp @ [hd ?q]) \<noteq> {}" by auto
  show "terminated (seek_iteration banned sp) = True"
    and "path_exists (seek_iteration banned sp) = True"
    and "graph (seek_iteration banned sp) = graph sp"
    and "nodeFrom (seek_iteration banned sp) = nodeFrom sp"
    and "nodeTo (seek_iteration banned sp) = nodeTo sp"
    and "used_queue_elements (seek_iteration banned sp)
           = used_queue_elements sp @ [hd (relaxed_queue banned sp)]"
    using assms n
    by (simp_all add: seek_iteration_def Let_def fold_relax_neighbor relaxed_queue_def
          theres_any_disjoint get_first_hd)
qed
section \<open>The invariant of the search loop\<close>

lemma seek_invD:
  assumes "seek_inv b avoid s t sp"
  shows "graph sp = b" and "nodeFrom sp = s" and "nodeTo sp = t" and "\<not> nodeTo_was_visited sp"
    and "allowed_node b avoid s"
    and "distinct (open_set sp)"
    and "set (open_set sp) = {v. allowed_node b avoid v} - closed_nodes s (used_queue_elements sp)"
    and "closed_nodes s (used_queue_elements sp) \<subseteq> {v. allowed_node b avoid v}"
    and "currentNode sp \<in> closed_nodes s (used_queue_elements sp)"
    and "distinct (map (\<lambda>e. triad_value2 e) (queue sp))"
    and "\<forall>e \<in> set (queue sp). triad_value2 e \<in> set (open_set sp)
             \<and> fst e \<in> closed_nodes s (used_queue_elements sp)
             \<and> triad_value2 e \<in> fst ` set (neighbors b (fst e))"
    and "closed_nodes s (used_queue_elements sp) \<subseteq> {v. (s, v) \<in> (edge_step b avoid)\<^sup>*}"
    and "\<forall>v \<in> closed_nodes s (used_queue_elements sp). v \<noteq> currentNode sp \<longrightarrow>
            (\<forall>w \<in> set (open_set sp). w \<in> fst ` set (neighbors b v)
                 \<longrightarrow> w \<in> (\<lambda>e. triad_value2 e) ` set (queue sp))"
    and "tree_ok s (used_queue_elements sp)"
    and "t \<notin> (\<lambda>e. triad_value2 e) ` set (used_queue_elements sp)"
proof -
  note a = assms [unfolded seek_inv_def]
  show "graph sp = b"
    using a by (elim conjE)
  show "nodeFrom sp = s"
    using a by (elim conjE)
  show "nodeTo sp = t"
    using a by (elim conjE)
  show "\<not> nodeTo_was_visited sp"
    using a by (elim conjE)
  show "allowed_node b avoid s"
    using a by (elim conjE)
  show "distinct (open_set sp)"
    using a by (elim conjE)
  show "set (open_set sp) = {v. allowed_node b avoid v} - closed_nodes s (used_queue_elements sp)"
    using a by (elim conjE)
  show "closed_nodes s (used_queue_elements sp) \<subseteq> {v. allowed_node b avoid v}"
    using a by (elim conjE)
  show "currentNode sp \<in> closed_nodes s (used_queue_elements sp)"
    using a by (elim conjE)
  show "distinct (map (\<lambda>e. triad_value2 e) (queue sp))"
    using a by (elim conjE)
  show "\<forall>e \<in> set (queue sp). triad_value2 e \<in> set (open_set sp)
             \<and> fst e \<in> closed_nodes s (used_queue_elements sp)
             \<and> triad_value2 e \<in> fst ` set (neighbors b (fst e))"
    using a by (elim conjE)
  show "closed_nodes s (used_queue_elements sp) \<subseteq> {v. (s, v) \<in> (edge_step b avoid)\<^sup>*}"
    using a by (elim conjE)
  show "\<forall>v \<in> closed_nodes s (used_queue_elements sp). v \<noteq> currentNode sp \<longrightarrow>
            (\<forall>w \<in> set (open_set sp). w \<in> fst ` set (neighbors b v)
                 \<longrightarrow> w \<in> (\<lambda>e. triad_value2 e) ` set (queue sp))"
    using a by (elim conjE)
  show "tree_ok s (used_queue_elements sp)"
    using a by (elim conjE)
  show "t \<notin> (\<lambda>e. triad_value2 e) ` set (used_queue_elements sp)"
    using a by (elim conjE)
qed

lemma mark_banned_member:
  "i \<in> set (mark_banned b avoid) \<longleftrightarrow> 0 \<le> i \<and> i < V b \<and> get_node_tag b i \<in> set avoid"
  by (auto simp: mark_banned_def set_indices list_ex_iff)

lemma allowed_node_banned:
  "allowed_node b avoid v \<longleftrightarrow> 0 \<le> v \<and> v < V b \<and> v \<notin> set (mark_banned b avoid)"
  by (auto simp: allowed_node_def mark_banned_member)

lemma closed_nodes_snoc: "closed_nodes s (used @ [u]) = insert (triad_value2 u) (closed_nodes s used)"
  by (auto simp: closed_nodes_def)

lemma tree_ok_snoc:
  assumes "tree_ok s used" "triad_value2 u \<notin> closed_nodes s used" "fst u \<in> closed_nodes s used"
  shows "tree_ok s (used @ [u])"
proof -
  have d: "distinct (map (\<lambda>e. triad_value2 e) used)" and s: "s \<notin> (\<lambda>e. triad_value2 e) ` set used"
    and k: "\<forall>k < length used. fst (used ! k) \<in> closed_nodes s (take k used)"
    using assms(1) by (simp_all add: tree_ok_def)
  have n: "triad_value2 u \<noteq> s" "triad_value2 u \<notin> (\<lambda>e. triad_value2 e) ` set used"
    using assms(2) by (simp_all add: closed_nodes_def)
  have "\<forall>k < length (used @ [u]). fst ((used @ [u]) ! k) \<in> closed_nodes s (take k (used @ [u]))"
  proof (intro allI impI)
    fix j assume "j < length (used @ [u])"
    then consider "j < length used" | "j = length used" by fastforce
    then show "fst ((used @ [u]) ! j) \<in> closed_nodes s (take j (used @ [u]))"
    proof cases
      case 1
      then show ?thesis using k by (simp add: nth_append)
    next
      case 2
      then show ?thesis using assms(3) by simp
    qed
  qed
  then show ?thesis using d s n unfolding tree_ok_def by auto
qed
section \<open>The search loop keeps its invariant\<close>

lemma relaxed_queue_inv:
  assumes "seek_inv b avoid s t sp"
  shows "distinct (map (\<lambda>e. triad_value2 e) (relaxed_queue (mark_banned b avoid) sp))"
    and "\<forall>e \<in> set (relaxed_queue (mark_banned b avoid) sp). triad_value2 e \<in> set (open_set sp)
             \<and> fst e \<in> closed_nodes s (used_queue_elements sp)
             \<and> triad_value2 e \<in> fst ` set (neighbors b (fst e))"
    and "set (relaxed_queue (mark_banned b avoid) sp) \<inter> set (used_queue_elements sp) = {}"
    and "\<forall>v \<in> closed_nodes s (used_queue_elements sp). \<forall>w \<in> set (open_set sp).
            w \<in> fst ` set (neighbors b v)
            \<longrightarrow> w \<in> (\<lambda>e. triad_value2 e) ` set (relaxed_queue (mark_banned b avoid) sp)"
proof -
  let ?B = "mark_banned b avoid"
  let ?q1 = "relaxed_queue ?B sp"
  let ?cur = "currentNode sp"
  let ?nbs = "neighbors b ?cur"
  note i = seek_invD [OF assms]
  have q1: "?q1 = foldl (relax_queue ?B (open_set sp) (tentative_costs sp) ?cur) (queue sp) ?nbs"
    by (simp add: relaxed_queue_def i(1))
  note f = fold_relax_queue [OF i(10), where banned = ?B and opn = "open_set sp"
              and costs = "tentative_costs sp" and cur = ?cur and nbs = ?nbs, folded q1]
  note f1 = f [THEN conjunct1]
  note f2 = f [THEN conjunct2, THEN conjunct1]
  note f3 = f [THEN conjunct2, THEN conjunct2, THEN conjunct1]
  note f4 = f [THEN conjunct2, THEN conjunct2, THEN conjunct2]
  show "distinct (map (\<lambda>e. triad_value2 e) ?q1)" by (rule f1)
  show e: "\<forall>e \<in> set ?q1. triad_value2 e \<in> set (open_set sp)
             \<and> fst e \<in> closed_nodes s (used_queue_elements sp)
             \<and> triad_value2 e \<in> fst ` set (neighbors b (fst e))"
  proof
    fix e assume "e \<in> set ?q1"
    then consider "e \<in> set (queue sp)"
      | "fst e = ?cur" "triad_value2 e \<in> fst ` set ?nbs" "triad_value2 e \<in> set (open_set sp)"
      using f2 by blast
    then show "triad_value2 e \<in> set (open_set sp)
             \<and> fst e \<in> closed_nodes s (used_queue_elements sp)
             \<and> triad_value2 e \<in> fst ` set (neighbors b (fst e))"
    proof cases
      case 1
      then show ?thesis using i(11) by blast
    next
      case 2
      then show ?thesis using i(9) by simp
    qed
  qed
  show "set ?q1 \<inter> set (used_queue_elements sp) = {}"
  proof (rule ccontr)
    assume "set ?q1 \<inter> set (used_queue_elements sp) \<noteq> {}"
    then obtain e where e1: "e \<in> set ?q1" and e2: "e \<in> set (used_queue_elements sp)" by blast
    have "triad_value2 e \<in> set (open_set sp)" using e e1 by blast
    then have "triad_value2 e \<notin> closed_nodes s (used_queue_elements sp)" using i(7) by simp
    moreover have "triad_value2 e \<in> closed_nodes s (used_queue_elements sp)"
      using e2 by (simp add: closed_nodes_def)
    ultimately show False by simp
  qed
  show "\<forall>v \<in> closed_nodes s (used_queue_elements sp). \<forall>w \<in> set (open_set sp).
            w \<in> fst ` set (neighbors b v) \<longrightarrow> w \<in> (\<lambda>e. triad_value2 e) ` set ?q1"
  proof (intro ballI impI)
    fix v w
    assume v: "v \<in> closed_nodes s (used_queue_elements sp)" and w: "w \<in> set (open_set sp)"
      and n: "w \<in> fst ` set (neighbors b v)"
    show "w \<in> (\<lambda>e. triad_value2 e) ` set ?q1"
    proof (cases "v = ?cur")
      case True
      then obtain nb where nb: "nb \<in> set ?nbs" "fst nb = w" using n by auto
      have "allowed_node b avoid w" using w i(7) by simp
      then have "w \<notin> set ?B" by (simp add: allowed_node_banned)
      then show ?thesis using f4 nb w by blast
    next
      case False
      then have "w \<in> (\<lambda>e. triad_value2 e) ` set (queue sp)" using i(13) v w n by blast
      then show ?thesis using f3 by blast
    qed
  qed
qed


lemma seek_step_reach:
  assumes "seek_inv b avoid s t sp" "e \<in> set (relaxed_queue (mark_banned b avoid) sp)"
  shows "(s, triad_value2 e) \<in> (edge_step b avoid)\<^sup>*"
proof -
  note i = seek_invD [OF assms(1)]
  note r = relaxed_queue_inv [OF assms(1)]
  have e: "triad_value2 e \<in> set (open_set sp)" "fst e \<in> closed_nodes s (used_queue_elements sp)"
    "triad_value2 e \<in> fst ` set (neighbors b (fst e))"
    using r(2) assms(2) by blast+
  have "allowed_node b avoid (fst e)" using e(2) i(8) by blast
  moreover have "allowed_node b avoid (triad_value2 e)" using e(1) i(7) by simp
  ultimately have "(fst e, triad_value2 e) \<in> edge_step b avoid"
    using e(3) by (simp add: edge_step_def)
  moreover have "(s, fst e) \<in> (edge_step b avoid)\<^sup>*" using e(2) i(12) by blast
  ultimately show ?thesis by (rule rtrancl_into_rtrancl [rotated])
qed

lemma seek_step_pop:
  assumes "seek_inv b avoid s t sp"
    "relaxed_queue (mark_banned b avoid) sp \<noteq> []"
    "triad_value2 (hd (relaxed_queue (mark_banned b avoid) sp)) \<noteq> t"
  shows "seek_inv b avoid s t (seek_iteration (mark_banned b avoid) sp)"
    and "length (open_set (seek_iteration (mark_banned b avoid) sp)) < length (open_set sp)"
    and "terminated (seek_iteration (mark_banned b avoid) sp) = terminated sp"
proof -
  let ?B = "mark_banned b avoid"
  let ?q1 = "relaxed_queue ?B sp"
  let ?top = "hd ?q1"
  let ?w = "triad_value2 ?top"
  let ?sp' = "seek_iteration ?B sp"
  let ?used = "used_queue_elements sp"
  let ?C = "closed_nodes s ?used"
  note i = seek_invD [OF assms(1)]
  note r = relaxed_queue_inv [OF assms(1)]
  have top: "?top \<in> set ?q1" using assms(2) by simp
  have w: "?w \<in> set (open_set sp)" "fst ?top \<in> ?C" using r(2) top by blast+
  have wt: "?w \<noteq> nodeTo sp" using assms(3) i(3) by simp
  note p = seek_iteration_pop [OF assms(2) r(3) wt w(1)]
  have wC: "?w \<notin> ?C" using w(1) i(7) by simp
  have wa: "allowed_node b avoid ?w" using w(1) i(7) by simp
  have C': "closed_nodes s (used_queue_elements ?sp') = insert ?w ?C"
    unfolding p(6) by (rule closed_nodes_snoc)
  have O': "set (open_set ?sp') = set (open_set sp) - {?w}"
    unfolding p(9) using i(6) by simp
  have q': "queue ?sp' = tl ?q1" by (rule p(7))
  have q1: "?q1 = ?top # tl ?q1" using assms(2) by simp
  have dtl: "distinct (map (\<lambda>e. triad_value2 e) (tl ?q1))"
    using r(1) by (simp add: distinct_tl map_tl)
  have tlw: "\<forall>e \<in> set (tl ?q1). triad_value2 e \<noteq> ?w"
  proof
    fix e assume e: "e \<in> set (tl ?q1)"
    have "distinct (map (\<lambda>e. triad_value2 e) (?top # tl ?q1))" using r(1) q1 by simp
    then have "?w \<notin> (\<lambda>e. triad_value2 e) ` set (tl ?q1)" by simp
    then show "triad_value2 e \<noteq> ?w" using e by (auto simp: image_iff)
  qed
  have tlsub: "set (tl ?q1) \<subseteq> set ?q1" using assms(2) by (simp add: list.set_sel(2) subsetI)
  show "length (open_set ?sp') < length (open_set sp)"
  proof -
    have "0 < length (open_set sp)" using w(1) by (rule length_pos_if_in_set)
    then show ?thesis unfolding p(9) using w(1) by (simp add: length_remove1)
  qed
  show "terminated ?sp' = terminated sp" by (rule p(1))
  show "seek_inv b avoid s t ?sp'"
    unfolding seek_inv_def
  proof (intro conjI)
    show "graph ?sp' = b" using p(3) i(1) by simp
    show "nodeFrom ?sp' = s" using p(4) i(2) by simp
    show "nodeTo ?sp' = t" using p(5) i(3) by simp
    show "\<not> nodeTo_was_visited ?sp'" using p(2) i(4) by simp
    show "allowed_node b avoid s" by (rule i(5))
    show "distinct (open_set ?sp')" unfolding p(9) using i(6) by simp
    show "set (open_set ?sp') = {v. allowed_node b avoid v} - closed_nodes s (used_queue_elements ?sp')"
      unfolding O' C' using i(7) by blast
    show "closed_nodes s (used_queue_elements ?sp') \<subseteq> {v. allowed_node b avoid v}"
      unfolding C' using i(8) wa by blast
    show "currentNode ?sp' \<in> closed_nodes s (used_queue_elements ?sp')"
      unfolding C' p(8) by simp
    show "distinct (map (\<lambda>e. triad_value2 e) (queue ?sp'))" unfolding q' by (rule dtl)
    show "\<forall>e \<in> set (queue ?sp'). triad_value2 e \<in> set (open_set ?sp')
             \<and> fst e \<in> closed_nodes s (used_queue_elements ?sp')
             \<and> triad_value2 e \<in> fst ` set (neighbors b (fst e))"
      unfolding q' O' C'
    proof
      fix e assume e: "e \<in> set (tl ?q1)"
      then have "e \<in> set ?q1" using tlsub by blast
      then have "triad_value2 e \<in> set (open_set sp)" "fst e \<in> ?C"
        "triad_value2 e \<in> fst ` set (neighbors b (fst e))" using r(2) by blast+
      then show "triad_value2 e \<in> set (open_set sp) - {?w} \<and> fst e \<in> insert ?w ?C
             \<and> triad_value2 e \<in> fst ` set (neighbors b (fst e))"
        using tlw e by simp
    qed
    show "closed_nodes s (used_queue_elements ?sp') \<subseteq> {v. (s, v) \<in> (edge_step b avoid)\<^sup>*}"
      unfolding C' using i(12) seek_step_reach [OF assms(1) top] by blast
    show "\<forall>v \<in> closed_nodes s (used_queue_elements ?sp'). v \<noteq> currentNode ?sp' \<longrightarrow>
            (\<forall>w \<in> set (open_set ?sp'). w \<in> fst ` set (neighbors b v)
                 \<longrightarrow> w \<in> (\<lambda>e. triad_value2 e) ` set (queue ?sp'))"
      unfolding q' O' C' p(8)
    proof (intro ballI impI)
      fix v w'
      assume v: "v \<in> insert ?w ?C" "v \<noteq> ?w" and w': "w' \<in> set (open_set sp) - {?w}"
        and n: "w' \<in> fst ` set (neighbors b v)"
      have "v \<in> ?C" using v by simp
      then have "w' \<in> (\<lambda>e. triad_value2 e) ` set ?q1" using r(4) w' n by blast
      then obtain e where e: "e \<in> set ?q1" "w' = triad_value2 e" by blast
      have "e \<noteq> ?top" using e(2) w' by auto
      then have "e \<in> set (tl ?q1)" using e(1) q1 by (metis set_ConsD)
      then show "w' \<in> (\<lambda>e. triad_value2 e) ` set (tl ?q1)" using e(2) by blast
    qed
    show "tree_ok s (used_queue_elements ?sp')"
      unfolding p(6) by (rule tree_ok_snoc [OF i(14) wC w(2)])
    show "t \<notin> (\<lambda>e. triad_value2 e) ` set (used_queue_elements ?sp')"
      unfolding p(6) using i(15) assms(3) by simp
  qed
qed

lemma seek_step_target:
  assumes "seek_inv b avoid s t sp"
    "relaxed_queue (mark_banned b avoid) sp \<noteq> []"
    "triad_value2 (hd (relaxed_queue (mark_banned b avoid) sp)) = t"
  shows "seek_post b avoid s t (seek_iteration (mark_banned b avoid) sp)"
    and "terminated (seek_iteration (mark_banned b avoid) sp)"
proof -
  let ?B = "mark_banned b avoid"
  let ?q1 = "relaxed_queue ?B sp"
  let ?top = "hd ?q1"
  let ?sp' = "seek_iteration ?B sp"
  let ?used = "used_queue_elements sp"
  let ?C = "closed_nodes s ?used"
  note i = seek_invD [OF assms(1)]
  note r = relaxed_queue_inv [OF assms(1)]
  have top: "?top \<in> set ?q1" using assms(2) by simp
  have w: "t \<in> set (open_set sp)" "fst ?top \<in> ?C" using r(2) top assms(3) by blast+
  have wt: "triad_value2 ?top = nodeTo sp" using assms(3) i(3) by simp
  note p = seek_iteration_target [OF assms(2) r(3) wt]
  have tC: "t \<notin> ?C" using w(1) i(7) by simp
  have ta: "allowed_node b avoid t" using w(1) i(7) by simp
  have st: "s \<noteq> t" using tC by (auto simp: closed_nodes_def)
  have reach: "(s, t) \<in> (edge_step b avoid)\<^sup>*"
    using seek_step_reach [OF assms(1) top] assms(3) by simp
  have tree: "tree_ok s (?used @ [?top])"
    by (rule tree_ok_snoc [OF i(14)]) (use tC w(2) assms(3) in simp_all)
  have "closed_nodes s (?used @ [?top]) \<subseteq> {v. allowed_node b avoid v}"
    unfolding closed_nodes_snoc using i(8) ta assms(3) by blast
  then have range: "(\<lambda>e. triad_value2 e) ` set (?used @ [?top]) \<subseteq> {v. 0 \<le> v \<and> v < V b}"
    by (auto simp: closed_nodes_def allowed_node_def)
  show "terminated ?sp'" using p(1) by simp
  show "seek_post b avoid s t ?sp'"
    unfolding seek_post_def p(6)
  proof (intro conjI impI)
    show "graph ?sp' = b" using p(3) i(1) by simp
    show "nodeFrom ?sp' = s" using p(4) i(2) by simp
    show "nodeTo ?sp' = t" using p(5) i(3) by simp
    show "path_exists ?sp' = (s \<noteq> t \<and> (s, t) \<in> (edge_step b avoid)\<^sup>*)"
      using p(2) st reach by simp
    show "tree_ok s (?used @ [?top])" by (rule tree)
    show "t \<in> (\<lambda>e. triad_value2 e) ` set (?used @ [?top])" using assms(3) by force
    show "(\<lambda>e. triad_value2 e) ` set (?used @ [?top]) \<subseteq> {v. 0 \<le> v \<and> v < V b}" by (rule range)
  qed
qed

lemma seek_step_empty:
  assumes "seek_inv b avoid s t sp" "relaxed_queue (mark_banned b avoid) sp = []"
  shows "seek_post b avoid s t (seek_iteration (mark_banned b avoid) sp)"
    and "terminated (seek_iteration (mark_banned b avoid) sp)"
proof -
  let ?B = "mark_banned b avoid"
  let ?sp' = "seek_iteration ?B sp"
  let ?C = "closed_nodes s (used_queue_elements sp)"
  note i = seek_invD [OF assms(1)]
  note r = relaxed_queue_inv [OF assms(1)]
  note p = seek_iteration_empty [OF assms(2)]
  have closed: "v \<in> ?C" if "(s, v) \<in> (edge_step b avoid)\<^sup>*" for v
    using that
  proof (induction rule: rtrancl_induct)
    case base
    then show ?case by (simp add: closed_nodes_def)
  next
    case (step y z)
    have z: "allowed_node b avoid z" "z \<in> fst ` set (neighbors b y)"
      using step.hyps(2) by (simp_all add: edge_step_def)
    have "z \<notin> set (open_set sp)"
    proof
      assume "z \<in> set (open_set sp)"
      then have "z \<in> (\<lambda>e. triad_value2 e) ` set (relaxed_queue ?B sp)"
        using r(4) step.IH z(2) by blast
      then show False using assms(2) by simp
    qed
    then show ?case using z(1) i(7) by simp
  qed
  have no: "\<not> (s \<noteq> t \<and> (s, t) \<in> (edge_step b avoid)\<^sup>*)"
  proof
    assume a: "s \<noteq> t \<and> (s, t) \<in> (edge_step b avoid)\<^sup>*"
    then have "t \<in> ?C" using closed by blast
    then show False using a i(15) by (simp add: closed_nodes_def)
  qed
  show "terminated ?sp'" using p(1) by simp
  have pe: "path_exists ?sp' = False" using p(2) i(4) by simp
  show "seek_post b avoid s t ?sp'"
    unfolding seek_post_def
  proof (intro conjI impI)
    show "graph ?sp' = b" using p(3) i(1) by simp
    show "nodeFrom ?sp' = s" using p(4) i(2) by simp
    show "nodeTo ?sp' = t" using p(5) i(3) by simp
    show "path_exists ?sp' = (s \<noteq> t \<and> (s, t) \<in> (edge_step b avoid)\<^sup>*)"
      using pe no by simp
    show "tree_ok s (used_queue_elements ?sp')" if "path_exists ?sp'" using that pe by simp
    show "t \<in> (\<lambda>e. triad_value2 e) ` set (used_queue_elements ?sp')" if "path_exists ?sp'"
      using that pe by simp
    show "(\<lambda>e. triad_value2 e) ` set (used_queue_elements ?sp') \<subseteq> {v. 0 \<le> v \<and> v < V b}"
      if "path_exists ?sp'" using that pe by simp
  qed
qed
section \<open>The search loop ends with the right answer\<close>

lemma seek_path_banned:
  assumes "s \<in> set (mark_banned (graph sp0) avoid) \<or> t \<in> set (mark_banned (graph sp0) avoid)"
  shows "\<exists>sp'. seek_path sp0 s t avoid = Some sp' \<and> graph sp' = graph sp0 \<and> path_was_seeked sp'
           \<and> \<not> path_exists sp'"
proof -
  have g: "graph (if path_was_seeked sp0 = True then clear_previous sp0 else sp0) = graph sp0"
    by (simp add: clear_previous_def)
  have "list_ex (\<lambda>node. node = s \<or> node = t) (mark_banned (graph sp0) avoid)"
    using assms by (auto simp: list_ex_iff)
  then show ?thesis
    unfolding seek_path_def Let_def using g by (simp add: clear_previous_def)
qed

lemma seek_path_search:
  assumes "s \<notin> set (mark_banned (graph sp0) avoid)" "t \<notin> set (mark_banned (graph sp0) avoid)"
  shows "seek_path sp0 s t avoid =
           (case while_option (\<lambda>s. terminated s = False) (seek_iteration (mark_banned (graph sp0) avoid))
                              (seek_start sp0 s t avoid) of
              None \<Rightarrow> None | Some sp6 \<Rightarrow> seek_finish sp6)"
proof -
  have g: "graph (if path_was_seeked sp0 = True then clear_previous sp0 else sp0) = graph sp0"
    by (simp add: clear_previous_def)
  have "\<not> list_ex (\<lambda>node. node = s \<or> node = t) (mark_banned (graph sp0) avoid)"
    using assms by (auto simp: list_ex_iff)
  then show ?thesis
    unfolding seek_path_def seek_start_def seek_finish_def Let_def using g by simp
qed

lemma seek_start_fields:
  assumes "sp_ready sp0"
  shows "graph (seek_start sp0 s t avoid) = graph sp0"
    and "nodeFrom (seek_start sp0 s t avoid) = s"
    and "nodeTo (seek_start sp0 s t avoid) = t"
    and "currentNode (seek_start sp0 s t avoid) = s"
    and "terminated (seek_start sp0 s t avoid) = False"
    and "nodeTo_was_visited (seek_start sp0 s t avoid) = False"
    and "queue (seek_start sp0 s t avoid) = []"
    and "used_queue_elements (seek_start sp0 s t avoid) = []"
    and "open_set (seek_start sp0 s t avoid)
           = filter (\<lambda>i. i \<noteq> s) (filter (\<lambda>i. i \<notin> set (mark_banned (graph sp0) avoid))
                                           (indices (V (graph sp0))))"
    and "shortest_path (seek_start sp0 s t avoid) = []"
    and "raw_shortest_path (seek_start sp0 s t avoid) = []"
proof -
  let ?sp1 = "if path_was_seeked sp0 = True then clear_previous sp0 else sp0"
  have f: "graph ?sp1 = graph sp0" "open_set ?sp1 = []" "queue ?sp1 = []"
    "used_queue_elements ?sp1 = []" "nodeTo_was_visited ?sp1 = False"
    "shortest_path ?sp1 = []" "raw_shortest_path ?sp1 = []"
    using assms by (auto simp: sp_ready_def clear_previous_def)
  show "graph (seek_start sp0 s t avoid) = graph sp0"
    and "nodeFrom (seek_start sp0 s t avoid) = s"
    and "nodeTo (seek_start sp0 s t avoid) = t"
    and "currentNode (seek_start sp0 s t avoid) = s"
    and "terminated (seek_start sp0 s t avoid) = False"
    and "nodeTo_was_visited (seek_start sp0 s t avoid) = False"
    and "queue (seek_start sp0 s t avoid) = []"
    and "used_queue_elements (seek_start sp0 s t avoid) = []"
    and "open_set (seek_start sp0 s t avoid)
           = filter (\<lambda>i. i \<noteq> s) (filter (\<lambda>i. i \<notin> set (mark_banned (graph sp0) avoid))
                                           (indices (V (graph sp0))))"
    and "shortest_path (seek_start sp0 s t avoid) = []"
    and "raw_shortest_path (seek_start sp0 s t avoid) = []"
    unfolding seek_start_def Let_def using f by (simp_all add: i_is_in_vector_mem)
qed

lemma seek_start_inv:
  assumes "sp_ready sp0" "graph sp0 = b" "allowed_node b avoid s"
  shows "seek_inv b avoid s t (seek_start sp0 s t avoid)"
proof -
  let ?sp = "seek_start sp0 s t avoid"
  note f = seek_start_fields [OF assms(1), of s t avoid]
  have C: "closed_nodes s (used_queue_elements ?sp) = {s}" unfolding f(8) by (simp add: closed_nodes_def)
  show ?thesis
    unfolding seek_inv_def C
  proof (intro conjI)
    show "graph ?sp = b" using f(1) assms(2) by simp
    show "nodeFrom ?sp = s" by (rule f(2))
    show "nodeTo ?sp = t" by (rule f(3))
    show "\<not> nodeTo_was_visited ?sp" using f(6) by simp
    show "allowed_node b avoid s" by (rule assms(3))
    show "distinct (open_set ?sp)" unfolding f(9) by (simp add: distinct_indices)
    show "set (open_set ?sp) = {v. allowed_node b avoid v} - {s}"
      unfolding f(9) using assms(2) by (auto simp: set_indices allowed_node_banned)
    show "{s} \<subseteq> {v. allowed_node b avoid v}" using assms(3) by simp
    show "currentNode ?sp \<in> {s}" using f(4) by simp
    show "distinct (map (\<lambda>e. triad_value2 e) (queue ?sp))" unfolding f(7) by simp
    show "\<forall>e \<in> set (queue ?sp). triad_value2 e \<in> set (open_set ?sp) \<and> fst e \<in> {s}
             \<and> triad_value2 e \<in> fst ` set (neighbors b (fst e))"
      unfolding f(7) by simp
    show "{s} \<subseteq> {v. (s, v) \<in> (edge_step b avoid)\<^sup>*}" by simp
    show "\<forall>v \<in> {s}. v \<noteq> currentNode ?sp \<longrightarrow>
            (\<forall>w \<in> set (open_set ?sp). w \<in> fst ` set (neighbors b v)
                 \<longrightarrow> w \<in> (\<lambda>e. triad_value2 e) ` set (queue ?sp))"
      using f(4) by simp
    show "tree_ok s (used_queue_elements ?sp)" unfolding f(8) by (simp add: tree_ok_def)
    show "t \<notin> (\<lambda>e. triad_value2 e) ` set (used_queue_elements ?sp)" unfolding f(8) by simp
  qed
qed

lemma seek_loop:
  assumes "seek_inv b avoid s t sp0" "terminated sp0 = False"
  shows "\<exists>sp'. while_option (\<lambda>s. terminated s = False) (seek_iteration (mark_banned b avoid)) sp0 = Some sp'
           \<and> seek_post b avoid s t sp'"
proof -
  let ?B = "mark_banned b avoid"
  let ?P = "\<lambda>sp. (terminated sp \<longrightarrow> seek_post b avoid s t sp) \<and> (\<not> terminated sp \<longrightarrow> seek_inv b avoid s t sp)"
  let ?f = "\<lambda>sp. if terminated sp then 0 else Suc (length (open_set sp))"
  have step: "?P (seek_iteration ?B sp) \<and> ?f (seek_iteration ?B sp) < ?f sp"
    if "?P sp" "terminated sp = False" for sp
  proof -
    let ?q1 = "relaxed_queue ?B sp"
    have inv: "seek_inv b avoid s t sp" using that by simp
    consider (empty) "?q1 = []" | (target) "?q1 \<noteq> []" "triad_value2 (hd ?q1) = t"
      | (pop) "?q1 \<noteq> []" "triad_value2 (hd ?q1) \<noteq> t" by blast
    then show ?thesis
    proof cases
      case empty
      show ?thesis using seek_step_empty [OF inv empty] that(2) by simp
    next
      case target
      show ?thesis using seek_step_target [OF inv target] that(2) by simp
    next
      case pop
      show ?thesis using seek_step_pop [OF inv pop] that(2) by simp
    qed
  qed
  have init: "?P sp0" using assms by simp
  have "\<exists>sp'. while_option (\<lambda>s. terminated s = False) (seek_iteration ?B) sp0 = Some sp'"
    by (rule measure_while_option_Some [where P = ?P and f = ?f, OF _ init]) (use step in blast)
  then obtain sp' where w: "while_option (\<lambda>s. terminated s = False) (seek_iteration ?B) sp0 = Some sp'"
    by blast
  have "?P sp'"
    by (rule while_option_rule [where P = ?P, OF _ w init]) (use step in blast)
  moreover have "terminated sp'" using while_option_stop [OF w] by simp
  ultimately show ?thesis using w by blast
qed
section \<open>The walk back of \<open>reproduce_found_path\<close> ends\<close>

lemma filter_unique:
  assumes "distinct (map f xs)" "x \<in> set xs"
  shows "filter (\<lambda>e. f e = f x) xs = [x]"
  using assms
proof (induction xs)
  case Nil
  then show ?case by simp
next
  case (Cons a xs)
  show ?case
  proof (cases "a = x")
    case True
    have "f x \<notin> f ` set xs" using Cons.prems(1) True by simp
    then have "\<forall>e \<in> set xs. f e \<noteq> f x" by (metis imageI)
    then have "filter (\<lambda>e. f e = f x) xs = []" by (simp add: filter_empty_conv)
    then show ?thesis using True by simp
  next
    case False
    then have x: "x \<in> set xs" using Cons.prems(2) by simp
    then have "f a \<noteq> f x" using Cons.prems(1) by force
    then show ?thesis using Cons.IH x Cons.prems(1) by simp
  qed
qed

lemma length_takeWhile_le_index:
  assumes "\<not> P (xs ! j)"
  shows "length (takeWhile P xs) \<le> j"
proof (rule ccontr)
  assume "\<not> length (takeWhile P xs) \<le> j"
  then have j: "j < length (takeWhile P xs)" by simp
  then have "takeWhile P xs ! j = xs ! j" by (rule takeWhile_nth)
  moreover have "takeWhile P xs ! j \<in> set (takeWhile P xs)" using j by simp
  ultimately have "P (xs ! j)" using set_takeWhileD by metis
  then show False using assms by simp
qed

lemma tree_parent:
  assumes "tree_ok s used" "u \<in> set used"
  shows "fst u \<in> closed_nodes s used"
    and "rank s used (fst u) < rank s used (triad_value2 u)"
proof -
  have d: "distinct (map (\<lambda>e. triad_value2 e) used)" and s: "s \<notin> (\<lambda>e. triad_value2 e) ` set used"
    and t: "\<forall>k < length used. fst (used ! k) \<in> closed_nodes s (take k used)"
    using assms(1) by (simp_all add: tree_ok_def)
  obtain k where k: "k < length used" "used ! k = u" using assms(2) by (auto simp: in_set_conv_nth)
  let ?v = "triad_value2 u"
  let ?kv = "length (takeWhile (\<lambda>e. triad_value2 e \<noteq> ?v) used)"
  have kv_le: "?kv \<le> k"
    by (rule length_takeWhile_le_index) (use k in simp)
  then have kv_lt: "?kv < length used" using k(1) by simp
  have "\<not> (triad_value2 (used ! ?kv) \<noteq> ?v)" using kv_lt by (rule nth_length_takeWhile)
  then have eq: "map (\<lambda>e. triad_value2 e) used ! ?kv = map (\<lambda>e. triad_value2 e) used ! k"
    using k kv_lt by simp
  have "(map (\<lambda>e. triad_value2 e) used ! ?kv = map (\<lambda>e. triad_value2 e) used ! k) = (?kv = k)"
    by (rule nth_eq_iff_index_eq [OF d]) (use k(1) kv_lt in simp_all)
  then have kv: "?kv = k" using eq by blast
  have vs: "?v \<noteq> s" using s assms(2) by force
  have rv: "rank s used ?v = Suc k" using vs kv by (simp add: rank_def)
  have p: "fst u \<in> closed_nodes s (take k used)" using t k by blast
  have "set (take k used) \<subseteq> set used" by (rule set_take_subset)
  then show "fst u \<in> closed_nodes s used" using p by (auto simp: closed_nodes_def)
  show "rank s used (fst u) < rank s used ?v"
  proof (cases "fst u = s")
    case True
    then show ?thesis using rv by (simp add: rank_def)
  next
    case False
    then have "fst u \<in> (\<lambda>e. triad_value2 e) ` set (take k used)" using p by (simp add: closed_nodes_def)
    then obtain e where e: "e \<in> set (take k used)" "fst u = triad_value2 e" by blast
    then obtain j where j: "j < length (take k used)" "take k used ! j = e"
      by (auto simp: in_set_conv_nth)
    then have j': "j < k" "used ! j = e" using k(1) by simp_all
    have "length (takeWhile (\<lambda>x. triad_value2 x \<noteq> fst u) used) \<le> j"
      by (rule length_takeWhile_le_index) (use j' e(2) in simp)
    then show ?thesis using False rv j'(1) by (simp add: rank_def)
  qed
qed

lemma elements_entry:
  assumes "tree_ok s (used_queue_elements sp)" "u \<in> set (used_queue_elements sp)"
    "0 \<le> triad_value2 u" "triad_value2 u < V (graph sp)"
  shows "get_top_NotDelete (vec_at (elements_of_each_destination_node sp) (triad_value2 u)) = u"
proof -
  let ?v = "triad_value2 u"
  have d: "distinct (map (\<lambda>e. triad_value2 e) (used_queue_elements sp))"
    using assms(1) by (simp add: tree_ok_def)
  have "vec_at (elements_of_each_destination_node sp) ?v
        = foldl pq_insert [] (filter (\<lambda>e. triad_value2 e = ?v) (used_queue_elements sp))"
    using assms(3,4)
    by (simp add: elements_of_each_destination_node_def vec_at_nth length_indices nth_indices)
  also have "\<dots> = foldl pq_insert [] [u]" using filter_unique [OF d assms(2)] by simp
  also have "\<dots> = [u]" by (simp add: pq_insert_def)
  finally show ?thesis by (simp add: get_top_NotDelete_def vec_at_def)
qed

lemma walk_back_loop:
  assumes "tree_ok s (used_queue_elements sp)"
    "(\<lambda>e. triad_value2 e) ` set (used_queue_elements sp) \<subseteq> {v. 0 \<le> v \<and> v < V (graph sp)}"
    "nodeFrom sp = s" "currentNode st0 \<in> closed_nodes s (used_queue_elements sp)"
    "nodeFrom st0 = s" "graph st0 = g" "path_exists st0 = pe" "path_was_seeked st0 = ps"
  shows "\<exists>st. while_option (\<lambda>st. currentNode st \<noteq> nodeFrom st)
                 (walk_back (elements_of_each_destination_node sp)) st0 = Some st
           \<and> graph st = g \<and> path_exists st = pe \<and> path_was_seeked st = ps"
proof -
  let ?used = "used_queue_elements sp"
  let ?el = "elements_of_each_destination_node sp"
  let ?P = "\<lambda>st. currentNode st \<in> closed_nodes s ?used \<and> nodeFrom st = s \<and> graph st = g
                  \<and> path_exists st = pe \<and> path_was_seeked st = ps"
  let ?f = "\<lambda>st. rank s ?used (currentNode st)"
  have step: "?P (walk_back ?el st) \<and> ?f (walk_back ?el st) < ?f st"
    if "?P st" "currentNode st \<noteq> nodeFrom st" for st
  proof -
    have "currentNode st \<in> (\<lambda>e. triad_value2 e) ` set ?used"
      using that by (auto simp: closed_nodes_def)
    then obtain u where u: "u \<in> set ?used" "currentNode st = triad_value2 u" by blast
    have r: "0 \<le> triad_value2 u" "triad_value2 u < V (graph sp)" using assms(2) u(1) by auto
    have top: "get_top_NotDelete (vec_at ?el (currentNode st)) = u"
      unfolding u(2) by (rule elements_entry [OF assms(1) u(1) r])
    have w: "currentNode (walk_back ?el st) = fst u" "nodeFrom (walk_back ?el st) = nodeFrom st"
      "graph (walk_back ?el st) = graph st" "path_exists (walk_back ?el st) = path_exists st"
      "path_was_seeked (walk_back ?el st) = path_was_seeked st"
      using top by (simp_all add: walk_back_def Let_def)
    note tp = tree_parent [OF assms(1) u(1)]
    show ?thesis unfolding w using tp that(1) u(2) by simp
  qed
  have init: "?P st0" using assms by simp
  have "\<exists>st. while_option (\<lambda>st. currentNode st \<noteq> nodeFrom st) (walk_back ?el) st0 = Some st"
    by (rule measure_while_option_Some [where P = ?P and f = ?f, OF _ init]) (use step in blast)
  then obtain st where w: "while_option (\<lambda>st. currentNode st \<noteq> nodeFrom st) (walk_back ?el) st0 = Some st"
    by blast
  have "?P st"
    by (rule while_option_rule [where P = ?P, OF _ w init]) (use step in blast)
  then show ?thesis using w by blast
qed

lemma reproduce_found_path_returns:
  assumes "tree_ok (nodeFrom sp) (used_queue_elements sp)"
    "(\<lambda>e. triad_value2 e) ` set (used_queue_elements sp) \<subseteq> {v. 0 \<le> v \<and> v < V (graph sp)}"
    "nodeTo sp \<in> (\<lambda>e. triad_value2 e) ` set (used_queue_elements sp)"
  shows "\<exists>sp'. reproduce_found_path sp = Some sp' \<and> graph sp' = graph sp
           \<and> path_exists sp' = path_exists sp \<and> path_was_seeked sp' = path_was_seeked sp"
proof -
  let ?st0 = "sp\<lparr>currentNode := nodeTo sp\<rparr>"
  have c: "currentNode ?st0 \<in> closed_nodes (nodeFrom sp) (used_queue_elements sp)"
    using assms(3) by (simp add: closed_nodes_def)
  obtain st where st: "while_option (\<lambda>st. currentNode st \<noteq> nodeFrom st)
                 (walk_back (elements_of_each_destination_node sp)) ?st0 = Some st"
      "graph st = graph sp" "path_exists st = path_exists sp" "path_was_seeked st = path_was_seeked sp"
    using walk_back_loop [OF assms(1,2) refl c, of "graph sp" "path_exists sp" "path_was_seeked sp"]
    by auto
  show ?thesis
    unfolding reproduce_found_path_def Let_def st(1) using st(2-4) by simp
qed
section \<open>What \<open>seek_path\<close> returns\<close>

lemma seek_path_result:
  assumes "sp_ready sp0" "graph sp0 = b" "0 \<le> s" "s < V b" "0 \<le> t" "t < V b"
  shows "\<exists>sp'. seek_path sp0 s t avoid = Some sp' \<and> graph sp' = b \<and> path_was_seeked sp'
           \<and> path_exists sp' = (s \<noteq> t \<and> allowed_node b avoid s \<and> (s, t) \<in> (edge_step b avoid)\<^sup>*)"
proof (cases "s \<in> set (mark_banned b avoid) \<or> t \<in> set (mark_banned b avoid)")
  case True
  then obtain sp' where sp': "seek_path sp0 s t avoid = Some sp'" "graph sp' = graph sp0"
      "path_was_seeked sp'" "\<not> path_exists sp'"
    using seek_path_banned [of s sp0 avoid t] assms(2) by blast
  have "\<not> (s \<noteq> t \<and> allowed_node b avoid s \<and> (s, t) \<in> (edge_step b avoid)\<^sup>*)"
  proof
    assume a: "s \<noteq> t \<and> allowed_node b avoid s \<and> (s, t) \<in> (edge_step b avoid)\<^sup>*"
    then have "(s, t) \<in> (edge_step b avoid)\<^sup>+" by (metis rtranclD)
    then obtain z where "(z, t) \<in> edge_step b avoid" by (metis tranclE)
    then have "allowed_node b avoid t" by (simp add: edge_step_def)
    then show False using a True by (simp add: allowed_node_banned)
  qed
  then show ?thesis using sp' assms(2) by simp
next
  case False
  then have nb: "s \<notin> set (mark_banned (graph sp0) avoid)" "t \<notin> set (mark_banned (graph sp0) avoid)"
    using assms(2) by simp_all
  have as: "allowed_node b avoid s" using False assms(3,4) by (simp add: allowed_node_banned)
  have inv: "seek_inv b avoid s t (seek_start sp0 s t avoid)"
    by (rule seek_start_inv [OF assms(1,2) as])
  have nt: "terminated (seek_start sp0 s t avoid) = False"
    by (rule seek_start_fields(5) [OF assms(1)])
  obtain sp6 where w: "while_option (\<lambda>s. terminated s = False) (seek_iteration (mark_banned b avoid))
                          (seek_start sp0 s t avoid) = Some sp6"
    and post: "seek_post b avoid s t sp6"
    using seek_loop [OF inv nt] by blast
  have sp: "seek_path sp0 s t avoid = seek_finish sp6"
    unfolding seek_path_search [OF nb] using w assms(2) by simp
  have p: "graph sp6 = b" "nodeFrom sp6 = s" "nodeTo sp6 = t"
    "path_exists sp6 = (s \<noteq> t \<and> (s, t) \<in> (edge_step b avoid)\<^sup>*)"
    using post by (simp_all add: seek_post_def)
  let ?sp7 = "sp6\<lparr>path_was_seeked := True\<rparr>"
  show ?thesis
  proof (cases "path_exists sp6")
    case True
    have r: "tree_ok s (used_queue_elements sp6)"
      "t \<in> (\<lambda>e. triad_value2 e) ` set (used_queue_elements sp6)"
      "(\<lambda>e. triad_value2 e) ` set (used_queue_elements sp6) \<subseteq> {v. 0 \<le> v \<and> v < V b}"
      using post True by (simp_all add: seek_post_def)
    have "\<exists>sp'. reproduce_found_path ?sp7 = Some sp' \<and> graph sp' = graph ?sp7
           \<and> path_exists sp' = path_exists ?sp7 \<and> path_was_seeked sp' = path_was_seeked ?sp7"
      by (rule reproduce_found_path_returns) (use r p in simp_all)
    then obtain sp' where sp': "reproduce_found_path ?sp7 = Some sp'" "graph sp' = b"
      "path_exists sp' = path_exists sp6" "path_was_seeked sp'"
      using p(1) by auto
    have "seek_finish sp6 = Some sp'" using True sp'(1) by (simp add: seek_finish_def)
    then show ?thesis using sp sp' p(4) as by simp
  next
    case False
    then have "seek_finish sp6 = Some ?sp7" by (simp add: seek_finish_def)
    then show ?thesis using sp p as by simp
  qed
qed

section \<open>The breadth-first reference search\<close>

lemma bfs_visit_sound_complete:
  assumes "set frontier \<subseteq> set visited" "set visited \<subseteq> {v. allowed_node g avoid v}"
    "\<forall>u \<in> set visited - set frontier. \<forall>v. (u, v) \<in> edge_step g avoid \<longrightarrow> v \<in> set visited"
  shows "set visited \<subseteq> set (bfs_visit g avoid frontier visited)
       \<and> (\<forall>u \<in> set (bfs_visit g avoid frontier visited). \<forall>v. (u, v) \<in> edge_step g avoid
             \<longrightarrow> v \<in> set (bfs_visit g avoid frontier visited))
       \<and> (\<forall>v \<in> set (bfs_visit g avoid frontier visited). \<exists>u \<in> set visited. (u, v) \<in> (edge_step g avoid)\<^sup>*)"
  using assms
proof (induction g avoid frontier visited rule: bfs_visit.induct)
  case (1 g avoid visited)
  then show ?case by auto
next
  case (2 g avoid u frontier visited)
  let ?fresh = "remdups (filter (\<lambda>v. allowed_node g avoid v \<and> v \<notin> set visited) (map fst (neighbors g u)))"
  let ?R = "set (bfs_visit g avoid (frontier @ ?fresh) (visited @ ?fresh))"
  have u: "u \<in> set visited" "allowed_node g avoid u" using "2.prems"(1,2) by auto
  have fresh: "set ?fresh = {v. allowed_node g avoid v \<and> v \<notin> set visited \<and> v \<in> fst ` set (neighbors g u)}"
    by auto
  have a1: "set (frontier @ ?fresh) \<subseteq> set (visited @ ?fresh)" using "2.prems"(1) by auto
  have a2: "set (visited @ ?fresh) \<subseteq> {v. allowed_node g avoid v}" using "2.prems"(2) by auto
  have a3: "\<forall>x \<in> set (visited @ ?fresh) - set (frontier @ ?fresh).
              \<forall>v. (x, v) \<in> edge_step g avoid \<longrightarrow> v \<in> set (visited @ ?fresh)"
  proof (intro ballI allI impI)
    fix x v assume x: "x \<in> set (visited @ ?fresh) - set (frontier @ ?fresh)"
      and e: "(x, v) \<in> edge_step g avoid"
    have xv: "x \<in> set visited" "x \<notin> set frontier" using x by auto
    show "v \<in> set (visited @ ?fresh)"
    proof (cases "x = u")
      case True
      have "allowed_node g avoid v" "v \<in> fst ` set (neighbors g u)"
        using e True by (simp_all add: edge_step_def)
      then show ?thesis unfolding set_append fresh by blast
    next
      case False
      then have "x \<in> set visited - set (u # frontier)" using xv by simp
      then have "v \<in> set visited" using "2.prems"(3) e by blast
      then show ?thesis by simp
    qed
  qed
  have ih: "set (visited @ ?fresh) \<subseteq> ?R
       \<and> (\<forall>x \<in> ?R. \<forall>v. (x, v) \<in> edge_step g avoid \<longrightarrow> v \<in> ?R)
       \<and> (\<forall>v \<in> ?R. \<exists>x \<in> set (visited @ ?fresh). (x, v) \<in> (edge_step g avoid)\<^sup>*)"
    by (rule "2.IH" [OF refl a1 a2 a3])
  note ih1 = ih [THEN conjunct1]
  note ih2 = ih [THEN conjunct2, THEN conjunct1]
  note ih3 = ih [THEN conjunct2, THEN conjunct2]
  have r: "bfs_visit g avoid (u # frontier) visited = bfs_visit g avoid (frontier @ ?fresh) (visited @ ?fresh)"
    by (simp add: Let_def)
  have c1: "set visited \<subseteq> ?R" using ih1 by auto
  have c3: "\<forall>v \<in> ?R. \<exists>x \<in> set visited. (x, v) \<in> (edge_step g avoid)\<^sup>*"
  proof
    fix v assume "v \<in> ?R"
    then obtain x where x: "x \<in> set (visited @ ?fresh)" "(x, v) \<in> (edge_step g avoid)\<^sup>*"
      using ih3 by blast
    show "\<exists>x \<in> set visited. (x, v) \<in> (edge_step g avoid)\<^sup>*"
    proof (cases "x \<in> set visited")
      case True
      then show ?thesis using x(2) by blast
    next
      case False
      then have "x \<in> set ?fresh" using x(1) by simp
      then have "allowed_node g avoid x" "x \<in> fst ` set (neighbors g u)" unfolding fresh by simp_all
      then have "(u, x) \<in> edge_step g avoid" using u(2) by (simp add: edge_step_def)
      then have "(u, v) \<in> (edge_step g avoid)\<^sup>*" using x(2) by (rule converse_rtrancl_into_rtrancl)
      then show ?thesis using u(1) by blast
    qed
  qed
  show ?case unfolding r by (intro conjI c1 ih2 c3)
qed

lemma bfs_reaches_iff:
  "bfs_reaches g avoid s t \<longleftrightarrow> allowed_node g avoid s \<and> (s, t) \<in> (edge_step g avoid)\<^sup>*"
proof (cases "allowed_node g avoid s")
  case False
  then show ?thesis by (simp add: bfs_reaches_def)
next
  case True
  let ?R = "set (bfs_visit g avoid [s] [s])"
  have b: "set [s] \<subseteq> ?R
       \<and> (\<forall>u \<in> ?R. \<forall>v. (u, v) \<in> edge_step g avoid \<longrightarrow> v \<in> ?R)
       \<and> (\<forall>v \<in> ?R. \<exists>u \<in> set [s]. (u, v) \<in> (edge_step g avoid)\<^sup>*)"
    by (rule bfs_visit_sound_complete) (use True in simp_all)
  note b1 = b [THEN conjunct1]
  note b2 = b [THEN conjunct2, THEN conjunct1]
  note b3 = b [THEN conjunct2, THEN conjunct2]
  have "t \<in> ?R \<longleftrightarrow> (s, t) \<in> (edge_step g avoid)\<^sup>*"
  proof
    assume "t \<in> ?R"
    then show "(s, t) \<in> (edge_step g avoid)\<^sup>*" using b3 by auto
  next
    assume "(s, t) \<in> (edge_step g avoid)\<^sup>*"
    then show "t \<in> ?R"
    proof (induction rule: rtrancl_induct)
      case base
      then show ?case using b1 by simp
    next
      case (step y z)
      then show ?case using b2 by blast
    qed
  qed
  then show ?thesis using True by (simp add: bfs_reaches_def)
qed

section \<open>The nested loops of the win checks\<close>

lemma bex_Cons_skip: "\<not> Q c \<Longrightarrow> (\<exists>x \<in> set (c # cs). Q x) = (\<exists>x \<in> set cs. Q x)"
  by simp

lemma scan_targets_result:
  assumes "sp_ready path" "graph path = b" "0 \<le> f a" "f a < V b"
    "\<forall>c \<in> set cs. 0 \<le> to c \<and> to c < V b"
  shows "\<exists>path'. scan_targets f to avoid path a cs
            = Some ((\<exists>c \<in> set cs. f a \<noteq> to c \<and> allowed_node b avoid (f a)
                       \<and> (f a, to c) \<in> (edge_step b avoid)\<^sup>*), path')
          \<and> sp_ready path' \<and> graph path' = b"
  using assms
proof (induction cs arbitrary: path)
  case Nil
  then show ?case by simp
next
  case (Cons c cs)
  have c: "0 \<le> to c" "to c < V b" using Cons.prems(5) by simp_all
  obtain sp' where sp': "seek_path path (f a) (to c) avoid = Some sp'" "graph sp' = b"
      "path_was_seeked sp'"
      "path_exists sp' = (f a \<noteq> to c \<and> allowed_node b avoid (f a)
                            \<and> (f a, to c) \<in> (edge_step b avoid)\<^sup>*)"
    using seek_path_result [OF Cons.prems(1,2,3,4) c] by blast
  have ready: "sp_ready sp'" using sp'(3) by (simp add: sp_ready_def)
  show ?case
  proof (cases "path_exists sp'")
    case True
    then have "scan_targets f to avoid path a (c # cs) = Some (True, sp')"
      using sp'(1) by (simp add: get_path_exists_def)
    moreover have "\<exists>c' \<in> set (c # cs). f a \<noteq> to c' \<and> allowed_node b avoid (f a)
                       \<and> (f a, to c') \<in> (edge_step b avoid)\<^sup>*"
      using True sp'(4) by simp
    ultimately show ?thesis using ready sp'(2) by simp
  next
    case False
    have rest: "\<forall>c \<in> set cs. 0 \<le> to c \<and> to c < V b" using Cons.prems(5) by simp
    obtain path' where p: "scan_targets f to avoid sp' a cs
            = Some ((\<exists>c \<in> set cs. f a \<noteq> to c \<and> allowed_node b avoid (f a)
                       \<and> (f a, to c) \<in> (edge_step b avoid)\<^sup>*), path')"
        "sp_ready path'" "graph path' = b"
      using Cons.IH [OF ready sp'(2) Cons.prems(3,4) rest] by blast
    have "scan_targets f to avoid path a (c # cs) = scan_targets f to avoid sp' a cs"
      using sp'(1) False by (simp add: get_path_exists_def)
    moreover have "\<not> (f a \<noteq> to c \<and> allowed_node b avoid (f a)
                       \<and> (f a, to c) \<in> (edge_step b avoid)\<^sup>*)"
      using False sp'(4) by simp
    then have "(\<exists>c' \<in> set (c # cs). f a \<noteq> to c' \<and> allowed_node b avoid (f a)
                       \<and> (f a, to c') \<in> (edge_step b avoid)\<^sup>*)
                 = (\<exists>c \<in> set cs. f a \<noteq> to c \<and> allowed_node b avoid (f a)
                       \<and> (f a, to c) \<in> (edge_step b avoid)\<^sup>*)"
      by (rule bex_Cons_skip)
    ultimately show ?thesis using p by simp
  qed
qed

lemma scan_sources_result:
  assumes "sp_ready path" "graph path = b"
    "\<forall>a \<in> set as. 0 \<le> f a \<and> f a < V b"
    "\<forall>c \<in> set cs. 0 \<le> to c \<and> to c < V b"
  shows "\<exists>path'. scan_sources f to avoid path as cs
            = Some ((\<exists>a \<in> set as. \<exists>c \<in> set cs. f a \<noteq> to c \<and> allowed_node b avoid (f a)
                       \<and> (f a, to c) \<in> (edge_step b avoid)\<^sup>*), path')
          \<and> sp_ready path' \<and> graph path' = b"
  using assms
proof (induction as arbitrary: path)
  case Nil
  then show ?case by simp
next
  case (Cons a as)
  have a: "0 \<le> f a" "f a < V b" using Cons.prems(3) by simp_all
  let ?hit = "\<exists>c \<in> set cs. f a \<noteq> to c \<and> allowed_node b avoid (f a)
                       \<and> (f a, to c) \<in> (edge_step b avoid)\<^sup>*"
  obtain p1 where p1: "scan_targets f to avoid path a cs = Some (?hit, p1)"
      "sp_ready p1" "graph p1 = b"
    using scan_targets_result [where f = f and a = a and to = to and avoid = avoid,
        OF Cons.prems(1,2) a Cons.prems(4)] by blast
  show ?case
  proof (cases ?hit)
    case True
    then have "scan_sources f to avoid path (a # as) cs = Some (True, p1)"
      using p1(1) by simp
    moreover have "\<exists>a' \<in> set (a # as). \<exists>c \<in> set cs. f a' \<noteq> to c \<and> allowed_node b avoid (f a')
                       \<and> (f a', to c) \<in> (edge_step b avoid)\<^sup>*"
      using True by simp
    ultimately show ?thesis using p1(2,3) by simp
  next
    case False
    have rest: "\<forall>a \<in> set as. 0 \<le> f a \<and> f a < V b" using Cons.prems(3) by simp
    obtain path' where p: "scan_sources f to avoid p1 as cs
            = Some ((\<exists>a \<in> set as. \<exists>c \<in> set cs. f a \<noteq> to c \<and> allowed_node b avoid (f a)
                       \<and> (f a, to c) \<in> (edge_step b avoid)\<^sup>*), path')"
        "sp_ready path'" "graph path' = b"
      using Cons.IH [OF p1(2,3) rest Cons.prems(4)] by blast
    have "scan_sources f to avoid path (a # as) cs = scan_sources f to avoid p1 as cs"
      using p1(1) False by simp
    moreover have "(\<exists>a' \<in> set (a # as). \<exists>c \<in> set cs. f a' \<noteq> to c \<and> allowed_node b avoid (f a')
                       \<and> (f a', to c) \<in> (edge_step b avoid)\<^sup>*)
                 = (\<exists>a \<in> set as. \<exists>c \<in> set cs. f a \<noteq> to c \<and> allowed_node b avoid (f a)
                       \<and> (f a, to c) \<in> (edge_step b avoid)\<^sup>*)"
      using False by (rule bex_Cons_skip)
    ultimately show ?thesis using p by simp
  qed
qed

lemma new_ShortestPath_ready:
  "sp_ready (new_ShortestPath b)" "graph (new_ShortestPath b) = b"
  by (simp_all add: sp_ready_def new_ShortestPath_def)

lemma hex_neighbor_adjacent:
  assumes "2 \<le> L" "0 \<le> v" "v < L * L" "0 \<le> w" "w < L * L"
  shows "w \<in> fst ` set (neighbors (board_with_tags L repr_mode tags) v)
         \<longleftrightarrow> adjacent (board_with_tags L repr_mode tags) v w"
proof -
  have "w \<in> fst ` set (matrix_row_edges (hex_matrix L) (L * L) v)
        \<longleftrightarrow> v \<in> set (hex_connect_from L (w div L) (w mod L))"
  proof
    assume "w \<in> fst ` set (matrix_row_edges (hex_matrix L) (L * L) v)"
    then obtain e where e: "e \<in> set (matrix_row_edges (hex_matrix L) (L * L) v)" "w = fst e"
      by blast
    then show "v \<in> set (hex_connect_from L (w div L) (w mod L))"
      using hex_row_member [OF assms(1,2,3), of e] by simp
  next
    assume "v \<in> set (hex_connect_from L (w div L) (w mod L))"
    then have "(w, 1) \<in> set (matrix_row_edges (hex_matrix L) (L * L) v)"
      using hex_row_member [OF assms(1,2,3), of "(w, 1)"] assms(4,5) by simp
    then show "w \<in> fst ` set (matrix_row_edges (hex_matrix L) (L * L) v)" by force
  qed
  then show ?thesis
    unfolding neighbors_hex [OF assms(2,3)] adjacent_hex [OF assms] .
qed

lemma allowed_node_tag:
  assumes "length tags = nat (L * L)" "set tags \<subseteq> {0, 1, 2}"
    "tag = 1 \<and> avoid = [0, 2] \<or> tag = 2 \<and> avoid = [0, 1]"
  shows "allowed_node (board_with_tags L repr_mode tags) avoid v
         \<longleftrightarrow> 0 \<le> v \<and> v < L * L \<and> get_node_tag (board_with_tags L repr_mode tags) v = tag"
proof (cases "0 \<le> v \<and> v < L * L")
  case False
  then show ?thesis by (auto simp: allowed_node_def board_with_tags_fields)
next
  case True
  then have "nat v < length tags" using assms(1) by (simp add: nat_less_iff)
  then have "tags ! nat v \<in> {0, 1, 2}" using assms(2) nth_mem by blast
  moreover have "get_node_tag (board_with_tags L repr_mode tags) v = tags ! nat v"
    using True \<open>nat v < length tags\<close> by (simp add: get_node_tag_def board_with_tags_fields vec_at_nth)
  ultimately show ?thesis using True assms(3)
    by (auto simp: allowed_node_def board_with_tags_fields)
qed

lemma edge_step_allowed:
  assumes "(u, v) \<in> (edge_step g avoid)\<^sup>*" "allowed_node g avoid u"
  shows "allowed_node g avoid v"
  using assms by (induction rule: rtrancl_induct) (simp_all add: edge_step_def)

lemma joined_reach:
  assumes "2 \<le> L" "length tags = nat (L * L)" "set tags \<subseteq> {0, 1, 2}"
    "tag = 1 \<and> avoid = [0, 2] \<or> tag = 2 \<and> avoid = [0, 1]"
  shows "joined (board_with_tags L repr_mode tags) tag u v
         \<longleftrightarrow> allowed_node (board_with_tags L repr_mode tags) avoid u
             \<and> (u, v) \<in> (edge_step (board_with_tags L repr_mode tags) avoid)\<^sup>*"
proof
  let ?b = "board_with_tags L repr_mode tags"
  note al = allowed_node_tag [OF assms(2,3,4), of repr_mode]
  assume "joined ?b tag u v"
  then show "allowed_node ?b avoid u \<and> (u, v) \<in> (edge_step ?b avoid)\<^sup>*"
  proof (induction rule: joined.induct)
    case (joined_start u)
    then show ?case using al [of u] by (simp add: board_with_tags_fields)
  next
    case (joined_step u v w)
    have av: "allowed_node ?b avoid v"
      using edge_step_allowed joined_step.IH by blast
    then have v: "0 \<le> v" "v < L * L" by (simp_all add: allowed_node_def board_with_tags_fields)
    have w: "0 \<le> w" "w < L * L" using joined_step.hyps by (simp_all add: board_with_tags_fields)
    have aw: "allowed_node ?b avoid w" using al [of w] w joined_step.hyps by simp
    have "w \<in> fst ` set (neighbors ?b v)"
      using hex_neighbor_adjacent [OF assms(1) v w, of repr_mode tags] joined_step.hyps(2) by simp
    then have "(v, w) \<in> edge_step ?b avoid" using av aw by (simp add: edge_step_def)
    then show ?case using joined_step.IH by (meson rtrancl.rtrancl_into_rtrancl)
  qed
next
  let ?b = "board_with_tags L repr_mode tags"
  note al = allowed_node_tag [OF assms(2,3,4), of repr_mode]
  assume a: "allowed_node ?b avoid u \<and> (u, v) \<in> (edge_step ?b avoid)\<^sup>*"
  then have r: "(u, v) \<in> (edge_step ?b avoid)\<^sup>*" and au: "allowed_node ?b avoid u" by simp_all
  from r show "joined ?b tag u v"
  proof (induction rule: rtrancl_induct)
    case base
    show ?case using au al [of u] by (simp add: joined_start board_with_tags_fields)
  next
    case (step y z)
    have ay: "allowed_node ?b avoid y" and az: "allowed_node ?b avoid z"
      and n: "z \<in> fst ` set (neighbors ?b y)"
      using step.hyps(2) by (simp_all add: edge_step_def)
    have y: "0 \<le> y" "y < L * L" using ay by (simp_all add: allowed_node_def board_with_tags_fields)
    have z: "0 \<le> z" "z < L * L" "get_node_tag ?b z = tag" using az al [of z] by simp_all
    have "adjacent ?b y z"
      using hex_neighbor_adjacent [OF assms(1) y z(1,2), of repr_mode tags] n by simp
    then show ?case
      using joined_step [OF step.IH, of z] z by (simp add: board_with_tags_fields)
  qed
qed

lemma border_index:
  assumes "1 \<le> L" "0 \<le> x" "x < L" "0 \<le> y" "y < L"
  shows "coordinate_to_nodeIndex (board_with_tags L repr_mode tags) x y = x * L + y"
    and "0 \<le> x * L + y" and "x * L + y < L * L"
proof -
  show "coordinate_to_nodeIndex (board_with_tags L repr_mode tags) x y = x * L + y"
    using assms by (simp add: coordinate_to_nodeIndex_def board_with_tags_fields)
  show "0 \<le> x * L + y" using assms by simp
  have "x + 1 \<le> L" using assms by simp
  then have "(x + 1) * L \<le> L * L" using assms(1) by (intro mult_right_mono) simp_all
  then show "x * L + y < L * L" using assms(5) by (simp add: algebra_simps)
qed

text \<open>What the two nested loops of a win check return on a hex board.\<close>

lemma scan_hex_board:
  assumes "2 \<le> L" and b: "b = board_with_tags L repr_mode tags"
    and f: "\<forall>a. 0 \<le> a \<and> a < L \<longrightarrow> 0 \<le> f a \<and> f a < L * L"
    and t: "\<forall>c. 0 \<le> c \<and> c < L \<longrightarrow> 0 \<le> to c \<and> to c < L * L"
  shows "\<exists>path'. scan_sources f to avoid (new_ShortestPath b) (indices L) (indices L)
            = Some ((\<exists>a \<in> {0..<L}. \<exists>c \<in> {0..<L}. f a \<noteq> to c \<and> allowed_node b avoid (f a)
                       \<and> (f a, to c) \<in> (edge_step b avoid)\<^sup>*), path')
          \<and> graph path' = b"
proof -
  have s: "set (indices L) = {0..<L}" by (rule set_indices)
  have v: "V b = L * L" unfolding b by (simp add: board_with_tags_fields)
  have 1: "\<forall>a \<in> set (indices L). 0 \<le> f a \<and> f a < V b" unfolding s v using f by simp
  have 2: "\<forall>c \<in> set (indices L). 0 \<le> to c \<and> to c < V b" unfolding s v using t by simp
  show ?thesis
    using scan_sources_result [where f = f and to = to and avoid = avoid,
        OF new_ShortestPath_ready 1 2] unfolding s by blast
qed

section \<open>The win checks on a hex board\<close>

lemma border_cells_differ:
  assumes "2 \<le> (L::int)" "0 \<le> a" "a < L" "0 \<le> c" "c < L"
  shows "0 * L + a \<noteq> (L - 1) * L + c" and "a * L + 0 \<noteq> c * L + (L - 1)"
proof -
  have "1 * L \<le> (L - 1) * L" using assms(1) by (intro mult_right_mono) simp_all
  then obtain m where m: "m = (L - 1) * L" "L \<le> m" by simp
  have "a \<noteq> m + c" using m(2) assms(3,4) by simp
  then show "0 * L + a \<noteq> (L - 1) * L + c" unfolding m(1) by simp
  show "a * L + 0 \<noteq> c * L + (L - 1)"
  proof (cases "a \<le> c")
    case True
    then have "a * L \<le> c * L" using assms(1) by (intro mult_right_mono) simp_all
    then obtain x y where xy: "x = a * L" "y = c * L" "x \<le> y" by simp
    have "x + 0 \<noteq> y + (L - 1)" using xy(3) assms(1) by simp
    then show ?thesis unfolding xy(1,2) .
  next
    case False
    then have "c + 1 \<le> a" by simp
    then have "(c + 1) * L \<le> a * L" using assms(1) by (intro mult_right_mono) simp_all
    moreover have "(c + 1) * L = c * L + L" by (simp add: algebra_simps)
    ultimately have "c * L + L \<le> a * L" by simp
    then obtain x y where xy: "x = a * L" "y = c * L" "y + L \<le> x" by simp
    have "x + 0 \<noteq> y + (L - 1)" using xy(3) by simp
    then show ?thesis unfolding xy(1,2) .
  qed
qed

text \<open>
  What each win check returns on a hex board: the board it was given, and whether some
  pair of opposite border cells is linked through allowed cells.
\<close>

lemma check_connection_vertical_hex:
  assumes "2 \<le> L" "board g = board_with_tags L repr_mode tags" "game_border_length g = L"
  shows "check_connection_vertical g
         = Some ((\<exists>n \<in> {0..<L}. \<exists>s \<in> {0..<L}.
                    allowed_node (board g) [0, 2] (coordinate_to_nodeIndex (board g) 0 n)
                    \<and> (coordinate_to_nodeIndex (board g) 0 n, coordinate_to_nodeIndex (board g) (L - 1) s)
                         \<in> (edge_step (board g) [0, 2])\<^sup>*), g)"
proof -
  let ?b = "board_with_tags L repr_mode tags"
  let ?f = "\<lambda>n. coordinate_to_nodeIndex ?b 0 n"
  let ?t = "\<lambda>s. coordinate_to_nodeIndex ?b (L - 1) s"
  have L: "1 \<le> L" "0 \<le> (0::int)" "0 < L" "0 \<le> L - 1" "L - 1 < L" using assms(1) by simp_all
  have f: "\<And>a. 0 \<le> a \<and> a < L \<Longrightarrow> ?f a = 0 * L + a \<and> 0 \<le> ?f a \<and> ?f a < L * L"
    using border_index(1) [OF L(1) L(2) L(3), where repr_mode = repr_mode and tags = tags]
      border_index(2,3) [OF L(1) L(2) L(3)] by simp
  have t: "\<And>c. 0 \<le> c \<and> c < L \<Longrightarrow> ?t c = (L - 1) * L + c \<and> 0 \<le> ?t c \<and> ?t c < L * L"
    using border_index(1) [OF L(1) L(4) L(5), where repr_mode = repr_mode and tags = tags]
      border_index(2,3) [OF L(1) L(4) L(5)] by simp
  have ne: "\<And>a c. a \<in> {0..<L} \<Longrightarrow> c \<in> {0..<L} \<Longrightarrow> ?f a \<noteq> ?t c"
    using f t border_cells_differ(1) [OF assms(1)] by simp
  obtain path' where p: "scan_sources ?f ?t [0, 2] (new_ShortestPath ?b) (indices L) (indices L)
            = Some ((\<exists>a \<in> {0..<L}. \<exists>c \<in> {0..<L}. ?f a \<noteq> ?t c \<and> allowed_node ?b [0, 2] (?f a)
                       \<and> (?f a, ?t c) \<in> (edge_step ?b [0, 2])\<^sup>*), path')"
      "graph path' = ?b"
    using scan_hex_board [where f = ?f and to = ?t and avoid = "[0, 2]", OF assms(1) refl] f t
    by blast
  have e: "(\<exists>a \<in> {0..<L}. \<exists>c \<in> {0..<L}. ?f a \<noteq> ?t c \<and> allowed_node ?b [0, 2] (?f a)
                       \<and> (?f a, ?t c) \<in> (edge_step ?b [0, 2])\<^sup>*)
         = (\<exists>a \<in> {0..<L}. \<exists>c \<in> {0..<L}. allowed_node ?b [0, 2] (?f a)
                       \<and> (?f a, ?t c) \<in> (edge_step ?b [0, 2])\<^sup>*)"
    using ne by (intro bex_cong refl) simp
  have g: "g\<lparr>board := ?b\<rparr> = g" using assms(2) by simp
  show ?thesis
    unfolding check_connection_vertical_def assms(2) assms(3) p(1) e
    by (simp add: p(2) g)
qed

lemma check_connection_lateral_hex:
  assumes "2 \<le> L" "board g = board_with_tags L repr_mode tags" "game_border_length g = L"
  shows "check_connection_lateral g
         = Some ((\<exists>w \<in> {0..<L}. \<exists>e \<in> {0..<L}.
                    allowed_node (board g) [0, 1] (coordinate_to_nodeIndex (board g) w 0)
                    \<and> (coordinate_to_nodeIndex (board g) w 0, coordinate_to_nodeIndex (board g) e (L - 1))
                         \<in> (edge_step (board g) [0, 1])\<^sup>*), g)"
proof -
  let ?b = "board_with_tags L repr_mode tags"
  let ?f = "\<lambda>w. coordinate_to_nodeIndex ?b w 0"
  let ?t = "\<lambda>e. coordinate_to_nodeIndex ?b e (L - 1)"
  have L: "1 \<le> L" "0 \<le> (0::int)" "0 < L" "0 \<le> L - 1" "L - 1 < L" using assms(1) by simp_all
  have f: "\<And>a. 0 \<le> a \<and> a < L \<Longrightarrow> ?f a = a * L + 0 \<and> 0 \<le> ?f a \<and> ?f a < L * L"
    using border_index(1) [OF L(1) _ _ L(2) L(3), where repr_mode = repr_mode and tags = tags]
      border_index(2,3) [OF L(1) _ _ L(2) L(3)] by simp
  have t: "\<And>c. 0 \<le> c \<and> c < L \<Longrightarrow> ?t c = c * L + (L - 1) \<and> 0 \<le> ?t c \<and> ?t c < L * L"
    using border_index(1) [OF L(1) _ _ L(4) L(5), where repr_mode = repr_mode and tags = tags]
      border_index(2,3) [OF L(1) _ _ L(4) L(5)] by simp
  have ne: "\<And>a c. a \<in> {0..<L} \<Longrightarrow> c \<in> {0..<L} \<Longrightarrow> ?f a \<noteq> ?t c"
    using f t border_cells_differ(2) [OF assms(1)] by simp
  obtain path' where p: "scan_sources ?f ?t [0, 1] (new_ShortestPath ?b) (indices L) (indices L)
            = Some ((\<exists>a \<in> {0..<L}. \<exists>c \<in> {0..<L}. ?f a \<noteq> ?t c \<and> allowed_node ?b [0, 1] (?f a)
                       \<and> (?f a, ?t c) \<in> (edge_step ?b [0, 1])\<^sup>*), path')"
      "graph path' = ?b"
    using scan_hex_board [where f = ?f and to = ?t and avoid = "[0, 1]", OF assms(1) refl] f t
    by blast
  have e: "(\<exists>a \<in> {0..<L}. \<exists>c \<in> {0..<L}. ?f a \<noteq> ?t c \<and> allowed_node ?b [0, 1] (?f a)
                       \<and> (?f a, ?t c) \<in> (edge_step ?b [0, 1])\<^sup>*)
         = (\<exists>a \<in> {0..<L}. \<exists>c \<in> {0..<L}. allowed_node ?b [0, 1] (?f a)
                       \<and> (?f a, ?t c) \<in> (edge_step ?b [0, 1])\<^sup>*)"
    using ne by (intro bex_cong refl) simp
  have g: "g\<lparr>board := ?b\<rparr> = g" using assms(2) by simp
  show ?thesis
    unfolding check_connection_lateral_def assms(2) assms(3) p(1) e
    by (simp add: p(2) g)
qed

lemma check_bot_won_hex:
  assumes "2 \<le> L" "b = board_with_tags L repr_mode tags"
  shows "check_bot_won b
         = Some ((\<exists>w \<in> {0..<L}. \<exists>e \<in> {0..<L}.
                    allowed_node b [0, 1] (coordinate_to_nodeIndex b w 0)
                    \<and> (coordinate_to_nodeIndex b w 0, coordinate_to_nodeIndex b e (L - 1))
                         \<in> (edge_step b [0, 1])\<^sup>*), b)"
proof -
  let ?g = "\<lparr>board = b, game_border_length = L, player_1_moves = [], player_2_moves = [],
             who_starts = 1, vs_robot = True, swap_rule = False, this_is_movement_number = 1,
             swap_has_been_done = False, game_finished = False, who_won = 0\<rparr>"
  have bl: "border_length b = L" unfolding assms(2) by (simp add: board_with_tags_fields)
  have "check_bot_won b = map_option (\<lambda>r. (fst r, board (snd r))) (check_connection_lateral ?g)"
    unfolding check_bot_won_def check_connection_lateral_def bl
    by (simp split: option.splits)
  moreover have "board ?g = board_with_tags L repr_mode tags" "game_border_length ?g = L"
    using assms(2) by simp_all
  note check_connection_lateral_hex [OF assms(1) this]
  ultimately show ?thesis by simp
qed

lemma joined_tag:
  "joined b tag u v \<Longrightarrow> 0 \<le> v \<and> v < V b \<and> get_node_tag b v = tag"
  by (induction rule: joined.induct) simp_all

lemma empty_board_not_joined:
  assumes "tag \<noteq> 0"
  shows "\<not> joined (new_Hex_Board L repr_mode) tag u v"
proof
  assume "joined (new_Hex_Board L repr_mode) tag u v"
  then have v: "0 \<le> v" "v < L * L" "get_node_tag (new_Hex_Board L repr_mode) v = tag"
    using joined_tag [of "new_Hex_Board L repr_mode" tag u v]
    by (simp_all add: V_def new_Hex_Board_fields)
  have "nat v < length (indices (L * L))" using v(1,2) by (simp add: length_indices nat_less_iff)
  then have "vec_at (map (\<lambda>i. 0::int) (indices (L * L))) v = 0"
    using v(1) by (simp add: vec_at_nth)
  then show False using v(3) assms by (simp add: get_node_tag_def new_Hex_Board_fields)
qed

lemma new_Hex_Board_blank:
  "new_Hex_Board L repr_mode = board_with_tags L repr_mode (map (\<lambda>i. 0) (indices (L * L)))"
proof -
  have "(new_Hex_Board L repr_mode)\<lparr>nodeTags := nodeTags (new_Hex_Board L repr_mode)\<rparr>
        = new_Hex_Board L repr_mode" by simp
  then show ?thesis
    unfolding board_with_tags_def new_Hex_Board_fields(7) [of L repr_mode] by simp
qed

lemma new_Hex_Game_board:
  "board (new_Hex_Game L starts robot swap)
     = board_with_tags L CON_MATRIX (map (\<lambda>i. 0) (indices (L * L)))"
  "game_border_length (new_Hex_Game L starts robot swap) = L"
  using new_Hex_Board_blank [of L CON_MATRIX] by (simp_all add: new_Hex_Game_def)

section \<open>The search from a node to itself (C1)\<close>

text \<open>
  C1.  On every hex board of border length at least 2, for every banned-tag set and every
  node \<open>s\<close> whose tag is not banned, \<open>seek_path\<close> called with source and target both
  \<open>s\<close> returns, and afterwards it reports that no path exists: \<open>get_path_exists\<close> is
  false, \<open>get_path\<close> is empty and \<open>get_path_cost\<close> is \<open>-1\<close>, not 0.  The source is put
  into the closed set before the loop, so it never enters the queue and the test
  \<open>currentNode == nodeTo\<close> of the loop is never reached for it.
\<close>

theorem seek_path_same_node_no_path:
  assumes "2 \<le> L" "length tags = nat (L * L)" "0 \<le> s" "s < L * L"
    "get_node_tag (board_with_tags L repr_mode tags) s \<notin> set avoid"
    "sp_ready sp" "graph sp = board_with_tags L repr_mode tags"
  shows "\<exists>sp'. seek_path sp s s avoid = Some sp' \<and> get_path_exists sp' = False
           \<and> get_path sp' = [] \<and> get_path_cost sp' = - 1"
proof -
  let ?b = "board_with_tags L repr_mode tags"
  have v: "s < V ?b" using assms(4) by (simp add: board_with_tags_fields)
  obtain sp' where sp': "seek_path sp s s avoid = Some sp'" "path_was_seeked sp'"
      "path_exists sp' = (s \<noteq> s \<and> allowed_node ?b avoid s \<and> (s, s) \<in> (edge_step ?b avoid)\<^sup>*)"
    using seek_path_result [OF assms(6,7,3) v assms(3) v, of avoid] by blast
  have "path_exists sp' = False" using sp'(3) by simp
  then show ?thesis
    using sp'(1) by (simp add: get_path_exists_def get_path_def get_path_cost_def)
qed

theorem seek_path_same_node_witness:
  "\<exists>sp'. seek_path (new_ShortestPath (board_with_tags 2 CON_MATRIX [1, 1, 1, 1])) 0 0 [0, 2] = Some sp'
     \<and> get_path_exists sp' = False \<and> get_path sp' = [] \<and> get_path_cost sp' = - 1"
  using seek_path_same_node_no_path [of 2 "[1, 1, 1, 1]" 0 CON_MATRIX "[0, 2]"
      "new_ShortestPath (board_with_tags 2 CON_MATRIX [1, 1, 1, 1])"]
  by (simp add: new_ShortestPath_ready get_node_tag_def board_with_tags_fields vec_at_nth)

section \<open>The search against breadth-first search (C2)\<close>

text \<open>
  C2.  On every hex board of border length at least 2, for every banned-tag set and
  every pair of nodes, \<open>seek_path\<close> returns, and it reports a path exactly when source
  and target differ and the breadth-first search restricted to the nodes that are not
  banned reaches the target from the source.  For a source equal to the target and not
  banned the breadth-first search reaches the target at once and \<open>seek_path\<close> reports no
  path.
\<close>

theorem seek_path_agrees_with_bfs:
  assumes "2 \<le> L" "length tags = nat (L * L)" "0 \<le> s" "s < L * L" "0 \<le> t" "t < L * L"
    "sp_ready sp" "graph sp = board_with_tags L repr_mode tags"
  shows "\<exists>sp'. seek_path sp s t avoid = Some sp'
           \<and> get_path_exists sp'
               = (s \<noteq> t \<and> bfs_reaches (board_with_tags L repr_mode tags) avoid s t)"
proof -
  let ?b = "board_with_tags L repr_mode tags"
  have v: "s < V ?b" "t < V ?b" using assms(4,6) by (simp_all add: board_with_tags_fields)
  obtain sp' where sp': "seek_path sp s t avoid = Some sp'"
      "path_exists sp' = (s \<noteq> t \<and> allowed_node ?b avoid s \<and> (s, t) \<in> (edge_step ?b avoid)\<^sup>*)"
    using seek_path_result [OF assms(7,8,3) v(1) assms(5) v(2), of avoid] by blast
  show ?thesis
    using sp' unfolding bfs_reaches_iff by (simp add: get_path_exists_def)
qed

theorem seek_path_agrees_with_bfs_witness:
  "(\<exists>sp'. seek_path (new_ShortestPath (board_with_tags 2 CON_MATRIX [1, 2, 1, 1])) 0 3 [0, 2] = Some sp'
      \<and> get_path_exists sp' = True)
   \<and> bfs_reaches (board_with_tags 2 CON_MATRIX [1, 2, 1, 1]) [0, 2] 0 3
   \<and> (\<exists>sp'. seek_path (new_ShortestPath (board_with_tags 2 CON_MATRIX [1, 2, 1, 1])) 0 0 [0, 2] = Some sp'
      \<and> get_path_exists sp' = False)
   \<and> bfs_reaches (board_with_tags 2 CON_MATRIX [1, 2, 1, 1]) [0, 2] 0 0"
proof -
  have a: "bfs_reaches (board_with_tags 2 CON_MATRIX [1, 2, 1, 1]) [0, 2] 0 3" by code_simp
  have b: "bfs_reaches (board_with_tags 2 CON_MATRIX [1, 2, 1, 1]) [0, 2] 0 0" by code_simp
  from seek_path_agrees_with_bfs [of 2 "[1, 2, 1, 1]" 0 3 "new_ShortestPath (board_with_tags 2 CON_MATRIX [1, 2, 1, 1])"
      CON_MATRIX "[0, 2]"]
    seek_path_agrees_with_bfs [of 2 "[1, 2, 1, 1]" 0 0 "new_ShortestPath (board_with_tags 2 CON_MATRIX [1, 2, 1, 1])"
      CON_MATRIX "[0, 2]"] a b
  show ?thesis by (simp add: new_ShortestPath_ready)
qed

section \<open>The win checks (C3, C10)\<close>

text \<open>
  C3.  On every hex board of border length at least 2 whose tags are 0, 1 or 2,
  \<open>check_connection_vertical\<close> returns true exactly when some cell of the north border
  is joined to some cell of the south border through cells tagged 1 only, and
  \<open>check_connection_lateral\<close> returns true exactly when some cell of the west border is
  joined to some cell of the east border through cells tagged 2 only.  Both return.
\<close>

theorem win_check_iff_joined:
  assumes "2 \<le> L" "length tags = nat (L * L)" "set tags \<subseteq> {0, 1, 2}"
    "board g = board_with_tags L repr_mode tags" "game_border_length g = L"
  shows "check_connection_vertical g
           = Some ((\<exists>n \<in> {0..<L}. \<exists>s \<in> {0..<L}.
                      joined (board g) 1 (coordinate_to_nodeIndex (board g) 0 n)
                                         (coordinate_to_nodeIndex (board g) (L - 1) s)), g)
       \<and> check_connection_lateral g
           = Some ((\<exists>w \<in> {0..<L}. \<exists>e \<in> {0..<L}.
                      joined (board g) 2 (coordinate_to_nodeIndex (board g) w 0)
                                         (coordinate_to_nodeIndex (board g) e (L - 1))), g)"
proof -
  let ?b = "board_with_tags L repr_mode tags"
  have j1: "\<And>u v. joined ?b 1 u v
             = (allowed_node ?b [0, 2] u \<and> (u, v) \<in> (edge_step ?b [0, 2])\<^sup>*)"
    by (rule joined_reach [OF assms(1,2,3)]) simp
  have j2: "\<And>u v. joined ?b 2 u v
             = (allowed_node ?b [0, 1] u \<and> (u, v) \<in> (edge_step ?b [0, 1])\<^sup>*)"
    by (rule joined_reach [OF assms(1,2,3)]) simp
  show ?thesis
    unfolding check_connection_vertical_hex [OF assms(1,4,5)]
      check_connection_lateral_hex [OF assms(1,4,5)] assms(4) j1 j2
    by simp
qed

theorem win_check_empty_board_witness:
  "check_connection_vertical (new_Hex_Game 5 1 False False) = Some (False, new_Hex_Game 5 1 False False)
   \<and> check_connection_lateral (new_Hex_Game 5 1 False False) = Some (False, new_Hex_Game 5 1 False False)"
proof -
  let ?g = "new_Hex_Game 5 1 False False"
  have b: "board ?g = new_Hex_Board 5 CON_MATRIX" by (simp add: new_Hex_Game_def)
  have l: "length (map (\<lambda>i. 0::int) (indices (5 * 5))) = nat (5 * 5)"
    by (simp add: length_indices)
  have s: "set (map (\<lambda>i. 0::int) (indices (5 * 5))) \<subseteq> {0, 1, 2}" by auto
  have n1: "\<And>u v. joined (board ?g) 1 u v = False"
    unfolding b using empty_board_not_joined [of 1 5 CON_MATRIX] by simp
  have n2: "\<And>u v. joined (board ?g) 2 u v = False"
    unfolding b using empty_board_not_joined [of 2 5 CON_MATRIX] by simp
  from win_check_iff_joined [of 5 "map (\<lambda>i. 0) (indices (5 * 5))" ?g CON_MATRIX,
      OF _ l s new_Hex_Game_board]
  show ?thesis unfolding n1 n2 by simp
qed

text \<open>
  C10.  On every hex board of border length at least 2, each of the three win checks
  returns, and the board is afterwards the board it was given: the game object returned
  by \<open>check_connection_vertical\<close> and \<open>check_connection_lateral\<close> is the game object
  passed in, the board returned by \<open>check_bot_won\<close> is the board passed in, so tags,
  node values, connectivity matrix, edge list and the two flags are the same.
\<close>

theorem win_checks_leave_board:
  assumes "2 \<le> L" "length tags = nat (L * L)"
    "board g = board_with_tags L repr_mode tags" "game_border_length g = L"
  shows "(\<exists>r. check_connection_vertical g = Some (r, g))
       \<and> (\<exists>r. check_connection_lateral g = Some (r, g))
       \<and> (\<exists>r. check_bot_won (board g) = Some (r, board g))"
  using check_connection_vertical_hex [OF assms(1,3,4)]
    check_connection_lateral_hex [OF assms(1,3,4)]
    check_bot_won_hex [OF assms(1,3)]
  by simp

theorem win_checks_leave_board_witness:
  "(\<exists>r. check_connection_vertical
          ((new_Hex_Game 3 1 True False)\<lparr>board := board_with_tags 3 CON_MATRIX [1, 0, 2, 1, 2, 0, 1, 0, 2]\<rparr>)
        = Some (r, (new_Hex_Game 3 1 True False)\<lparr>board := board_with_tags 3 CON_MATRIX [1, 0, 2, 1, 2, 0, 1, 0, 2]\<rparr>))
   \<and> (\<exists>r. check_bot_won (board_with_tags 3 CON_MATRIX [1, 0, 2, 1, 2, 0, 1, 0, 2])
        = Some (r, board_with_tags 3 CON_MATRIX [1, 0, 2, 1, 2, 0, 1, 0, 2]))"
  using win_checks_leave_board [of 3 "[1, 0, 2, 1, 2, 0, 1, 0, 2]"
      "(new_Hex_Game 3 1 True False)\<lparr>board := board_with_tags 3 CON_MATRIX [1, 0, 2, 1, 2, 0, 1, 0, 2]\<rparr>"
      CON_MATRIX]
  by (simp add: new_Hex_Game_def)


end
